theory Spec2Isabelle
  imports Complex_Main
begin

section \<open>ECMAScript Number values\<close>

text \<open>
  The resizer is a React component written in JavaScript. Every number it handles
  (bitmap sizes, target sizes, the crop rectangle) is an ECMAScript Number: an IEEE 754
  binary64 value. A Number is modelled by its exact rational value, with the special
  values kept apart. \<open>Fin 0\<close> is the positive zero and \<open>NZero\<close> the negative one.
\<close>

datatype jsnum = NaN | PInf | NInf | NZero | Fin rat

fun isZero :: "jsnum \<Rightarrow> bool" where
  "isZero NZero = True"
| "isZero (Fin r) = (r = 0)"
| "isZero _ = False"

fun isInf :: "jsnum \<Rightarrow> bool" where
  "isInf PInf = True"
| "isInf NInf = True"
| "isInf _ = False"

fun isNeg :: "jsnum \<Rightarrow> bool" where
  "isNeg NInf = True"
| "isNeg NZero = True"
| "isNeg (Fin r) = (r < 0)"
| "isNeg _ = False"

fun valOf :: "jsnum \<Rightarrow> rat" where
  "valOf (Fin r) = r"
| "valOf _ = 0"

definition signedZero :: "bool \<Rightarrow> jsnum" where
  "signedZero s = (if s then NZero else Fin 0)"

definition signedInf :: "bool \<Rightarrow> jsnum" where
  "signedInf s = (if s then NInf else PInf)"

subsection \<open>Rounding to binary64\<close>

text \<open>
  \<open>ilog2 n\<close> is the position of the highest set bit of \<open>n\<close>, and \<open>expo x\<close> the
  binary exponent of a non-zero rational: \<open>2 ^ expo x \<le> \<bar>x\<bar> < 2 ^ (expo x + 1)\<close>.
\<close>

fun ilog2 :: "nat \<Rightarrow> nat" where
  "ilog2 n = (if n < 2 then 0 else Suc (ilog2 (n div 2)))"

declare ilog2.simps [simp del]

definition pow2 :: "int \<Rightarrow> rat" where
  "pow2 e = (if 0 \<le> e then 2 ^ nat e else 1 / 2 ^ nat (- e))"

definition expo :: "rat \<Rightarrow> int" where
  "expo x = (if 1 \<le> \<bar>x\<bar> then int (ilog2 (nat \<lfloor>\<bar>x\<bar>\<rfloor>))
             else - int (ilog2 (nat (\<lceil>1 / \<bar>x\<bar>\<rceil> - 1))) - 1)"

text \<open>Rounding to the nearest integer, ties to the even one.\<close>

definition round_even :: "rat \<Rightarrow> int" where
  "round_even y = (let f = \<lfloor>y\<rfloor>; d = y - of_int f in
     if d < 1 / 2 then f else if 1 / 2 < d then f + 1 else if even f then f else f + 1)"

text \<open>
  A binary64 value has a 53-bit significand; below \<open>2 ^ - 1022\<close> the values are
  subnormal and their spacing stays \<open>2 ^ - 1074\<close>. \<open>ulp_exp x\<close> is the exponent of
  the spacing of the values around \<open>x\<close>, \<open>rnd x\<close> the nearest value on that grid
  (the exponent range taken as unbounded above), and \<open>fl x\<close> the Number that an
  operation with exact result \<open>x\<close> returns: a result of magnitude \<open>2 ^ 1024\<close> or
  more is an infinity, and a result rounded to zero keeps the sign of \<open>x\<close>.
\<close>

definition ulp_exp :: "rat \<Rightarrow> int" where
  "ulp_exp x = max (expo x) (- 1022) - 52"

definition rnd :: "rat \<Rightarrow> rat" where
  "rnd x = of_int (round_even (x / pow2 (ulp_exp x))) * pow2 (ulp_exp x)"

definition fl :: "rat \<Rightarrow> jsnum" where
  "fl x = (let r = rnd x in
     if 2 ^ 1024 \<le> \<bar>r\<bar> then signedInf (x < 0)
     else if r = 0 then signedZero (x < 0)
     else Fin r)"

subsection \<open>The operators the component uses\<close>

text \<open>\<open>a / b\<close>, \<open>a * b\<close> and \<open>a - b\<close> of ECMAScript (Number::divide, ::multiply, ::subtract).\<close>

definition jsdiv :: "jsnum \<Rightarrow> jsnum \<Rightarrow> jsnum" where
  "jsdiv a b =
    (if a = NaN \<or> b = NaN then NaN
     else if isInf a then (if isInf b then NaN else signedInf (isNeg a \<noteq> isNeg b))
     else if isInf b then signedZero (isNeg a \<noteq> isNeg b)
     else if isZero b then (if isZero a then NaN else signedInf (isNeg a \<noteq> isNeg b))
     else if isZero a then signedZero (isNeg a \<noteq> isNeg b)
     else fl (valOf a / valOf b))"

definition jsmul :: "jsnum \<Rightarrow> jsnum \<Rightarrow> jsnum" where
  "jsmul a b =
    (if a = NaN \<or> b = NaN then NaN
     else if isInf a \<or> isInf b then
       (if isZero a \<or> isZero b then NaN else signedInf (isNeg a \<noteq> isNeg b))
     else if isZero a \<or> isZero b then signedZero (isNeg a \<noteq> isNeg b)
     else fl (valOf a * valOf b))"

definition jssub :: "jsnum \<Rightarrow> jsnum \<Rightarrow> jsnum" where
  "jssub a b =
    (if a = NaN \<or> b = NaN then NaN
     else if isInf a then (if isInf b \<and> isNeg a = isNeg b then NaN else a)
     else if isInf b then signedInf (\<not> isNeg b)
     else if valOf a - valOf b = 0 then signedZero (a = NZero \<and> b = Fin 0)
     else fl (valOf a - valOf b))"

text \<open>\<open>a > b\<close>: false as soon as one side is NaN; the two zeros compare equal.\<close>

definition jsgt :: "jsnum \<Rightarrow> jsnum \<Rightarrow> bool" where
  "jsgt a b =
    (if a = NaN \<or> b = NaN then False
     else if a = PInf then b \<noteq> PInf
     else if b = NInf then a \<noteq> NInf
     else if a = NInf \<or> b = PInf then False
     else valOf b < valOf a)"

text \<open>\<open>Math.max(a, b)\<close>: NaN if an argument is NaN, and \<open>+0\<close> counts as larger than \<open>-0\<close>.\<close>

definition Math_max :: "jsnum \<Rightarrow> jsnum \<Rightarrow> jsnum" where
  "Math_max a b =
    (if a = NaN \<or> b = NaN then NaN
     else if jsgt b a then b
     else if jsgt a b then a
     else if a = NZero then b else a)"

text \<open>ToBoolean of a Number, and \<open>n || d\<close>.\<close>

definition truthy :: "jsnum \<Rightarrow> bool" where
  "truthy n = (n \<noteq> NaN \<and> \<not> isZero n)"

definition orElse :: "jsnum \<Rightarrow> jsnum \<Rightarrow> jsnum" where
  "orElse n d = (if truthy n then n else d)"

definition ofNat :: "nat \<Rightarrow> jsnum" where
  "ofNat n = Fin (of_nat n)"

section \<open>Numbers and strings\<close>

text \<open>
  Strings are lists of characters; the model covers strings whose code units are
  below 256. \<open>StringToNumber\<close> follows the StringNumericLiteral grammar of
  ECMAScript, which \<open>Number(s)\<close> applies to a string: white space is trimmed, the
  empty string is \<open>+0\<close>, a literal is an optionally signed decimal literal (with
  fraction and exponent, or \<open>Infinity\<close>) or an unsigned \<open>0x\<close>, \<open>0o\<close>, \<open>0b\<close>
  literal, and anything else is NaN. The value of a literal is rounded to binary64.
\<close>

definition isWhiteSpace :: "char \<Rightarrow> bool" where
  "isWhiteSpace c = (of_char c \<in> set [9, 10, 11, 12, 13, 32, 160 :: nat])"

definition trimString :: "string \<Rightarrow> string" where
  "trimString s = rev (dropWhile isWhiteSpace (rev (dropWhile isWhiteSpace s)))"

definition isDigit :: "char \<Rightarrow> bool" where
  "isDigit c = (c \<in> set ''0123456789'')"

definition hexVal :: "char \<Rightarrow> nat option" where
  "hexVal c = (let n = of_char c :: nat in
     if 48 \<le> n \<and> n \<le> 57 then Some (n - 48)
     else if 97 \<le> n \<and> n \<le> 102 then Some (n - 87)
     else if 65 \<le> n \<and> n \<le> 70 then Some (n - 55)
     else None)"

definition digitsIn :: "nat \<Rightarrow> string \<Rightarrow> nat option" where
  "digitsIn b ds =
    (if ds \<noteq> [] \<and> list_all (\<lambda>c. case hexVal c of None \<Rightarrow> False | Some d \<Rightarrow> d < b) ds
     then Some (foldl (\<lambda>a c. b * a + the (hexVal c)) 0 ds) else None)"

definition pow10 :: "int \<Rightarrow> rat" where
  "pow10 e = (if 0 \<le> e then 10 ^ nat e else 1 / 10 ^ nat (- e))"

definition signedInteger :: "string \<Rightarrow> int option" where
  "signedInteger t =
    (case t of
       [] \<Rightarrow> None
     | c # u \<Rightarrow>
         if c = CHR ''+'' then map_option int (digitsIn 10 u)
         else if c = CHR ''-'' then map_option (\<lambda>n. - int n) (digitsIn 10 u)
         else map_option int (digitsIn 10 t))"

definition exponentPart :: "string \<Rightarrow> int option" where
  "exponentPart r =
    (case r of
       [] \<Rightarrow> Some 0
     | c # t \<Rightarrow> if c = CHR ''e'' \<or> c = CHR ''E'' then signedInteger t else None)"

definition strUnsignedDecimal :: "string \<Rightarrow> rat option" where
  "strUnsignedDecimal s =
    (let ip = takeWhile isDigit s;
         r1 = dropWhile isDigit s;
         dot = (r1 \<noteq> [] \<and> hd r1 = CHR ''.'');
         fp = (if dot then takeWhile isDigit (tl r1) else []);
         r2 = (if dot then dropWhile isDigit (tl r1) else r1)
     in if ip = [] \<and> fp = [] then None
        else case exponentPart r2 of
               None \<Rightarrow> None
             | Some e \<Rightarrow>
                 Some (of_nat (the (digitsIn 10 (CHR ''0'' # ip @ fp))) * pow10 (e - int (length fp))))"

definition strDecimal :: "bool \<Rightarrow> string \<Rightarrow> jsnum" where
  "strDecimal negative u =
    (if u = ''Infinity'' then signedInf negative
     else case strUnsignedDecimal u of
            None \<Rightarrow> NaN
          | Some v \<Rightarrow> if v = 0 then signedZero negative else fl (if negative then - v else v))"

definition nonDecimal :: "string \<Rightarrow> nat option" where
  "nonDecimal t =
    (case t of
       z # x # ds \<Rightarrow>
         if z \<noteq> CHR ''0'' then None
         else if x = CHR ''x'' \<or> x = CHR ''X'' then digitsIn 16 ds
         else if x = CHR ''o'' \<or> x = CHR ''O'' then digitsIn 8 ds
         else if x = CHR ''b'' \<or> x = CHR ''B'' then digitsIn 2 ds
         else None
     | _ \<Rightarrow> None)"

definition StringToNumber :: "string \<Rightarrow> jsnum" where
  "StringToNumber s =
    (let t = trimString s in
     if t = [] then Fin 0
     else case nonDecimal t of
            Some n \<Rightarrow> fl (of_nat n)
          | None \<Rightarrow>
              if hd t = CHR ''-'' then strDecimal True (tl t)
              else if hd t = CHR ''+'' then strDecimal False (tl t)
              else strDecimal False t)"

text \<open>
  \<open>NumberToString\<close> is Number::toString in radix 10, which a template literal
  applies to a Number: the shortest digit string \<open>s\<close> of \<open>k\<close> digits with
  \<open>s * 10 ^ (n - k)\<close> rounding to the value, laid out by \<open>n\<close> and \<open>k\<close>.
\<close>

fun ilog10 :: "nat \<Rightarrow> nat" where
  "ilog10 n = (if n < 10 then 0 else Suc (ilog10 (n div 10)))"

declare ilog10.simps [simp del]

fun showNat :: "nat \<Rightarrow> string" where
  "showNat n = (if n < 10 then [char_of (48 + n)] else showNat (n div 10) @ [char_of (48 + n mod 10)])"

declare showNat.simps [simp del]

definition decExp :: "rat \<Rightarrow> int" where
  "decExp x = (if 1 \<le> x then int (ilog10 (nat \<lfloor>x\<rfloor>)) + 1
               else - int (ilog10 (nat (\<lceil>1 / x\<rceil> - 1))))"

text \<open>
  For \<open>k\<close> digits, the candidates are the two integers around \<open>x / 10 ^ (n0 - k)\<close>;
  one is taken if it rounds to \<open>x\<close>, the closer one (the even one on a tie) if both do.
  \<open>shortest\<close> tries 1, 2, ... digits in this way, up to the 17 digits that every
  binary64 value needs at most, so that the last digit is that of the closest decimal
  also when all 17 are needed.
\<close>

definition digitsAt :: "rat \<Rightarrow> int \<Rightarrow> nat \<Rightarrow> int option" where
  "digitsAt x n0 k =
    (let sc = pow10 (n0 - int k);
         y = x / sc;
         lo = \<lfloor>y\<rfloor>; hi = \<lceil>y\<rceil>;
         okLo = (0 < lo \<and> fl (of_int lo * sc) = Fin x);
         okHi = (fl (of_int hi * sc) = Fin x)
     in if okLo \<and> okHi then
          (if y - of_int lo < of_int hi - y then Some lo
           else if of_int hi - y < y - of_int lo then Some hi
           else if even lo then Some lo else Some hi)
        else if okLo then Some lo
        else if okHi then Some hi
        else None)"

fun shortest :: "rat \<Rightarrow> int \<Rightarrow> nat \<Rightarrow> nat \<Rightarrow> nat \<times> nat" where
  "shortest x n0 k 0 =
    (case digitsAt x n0 k of
       Some s \<Rightarrow> (nat s, k)
     | None \<Rightarrow> (nat (round_even (x / pow10 (n0 - int k))), k))"
| "shortest x n0 k (Suc fuel) =
    (case digitsAt x n0 k of
       Some s \<Rightarrow> (nat s, k)
     | None \<Rightarrow> shortest x n0 (Suc k) fuel)"

definition posToString :: "rat \<Rightarrow> string" where
  "posToString x =
    (let n0 = decExp x;
         (s0, k) = shortest x n0 1 16;
         carry = (s0 = 10 ^ k);
         s = (if carry then 10 ^ (k - 1) else s0);
         n = (if carry then n0 + 1 else n0);
         ds = showNat s
     in if int k \<le> n \<and> n \<le> 21 then ds @ replicate (nat (n - int k)) CHR ''0''
        else if 0 < n \<and> n \<le> 21 then take (nat n) ds @ ''.'' @ drop (nat n) ds
        else if - 6 < n \<and> n \<le> 0 then ''0.'' @ replicate (nat (- n)) CHR ''0'' @ ds
        else (if k = 1 then ds else take 1 ds @ ''.'' @ drop 1 ds)
             @ ''e'' @ (if 0 < n - 1 then ''+'' else ''-'') @ showNat (nat \<bar>n - 1\<bar>))"

fun NumberToString :: "jsnum \<Rightarrow> string" where
  "NumberToString NaN = ''NaN''"
| "NumberToString PInf = ''Infinity''"
| "NumberToString NInf = ''-Infinity''"
| "NumberToString NZero = ''0''"
| "NumberToString (Fin r) =
    (if r = 0 then ''0'' else if r < 0 then ''-'' @ posToString (- r) else posToString r)"

section \<open>The component\<close>

subsection \<open>Data\<close>

text \<open>
  A catalog entry of \<open>PRESETS\<close>: \<open>pid\<close>, \<open>pw\<close> and \<open>ph\<close> are the fields \<open>id\<close>,
  \<open>w\<close> and \<open>h\<close> of the source (\<open>label\<close> and \<open>info\<close> are only displayed). Both source
  files declare the same catalog.
\<close>

record preset =
  pid :: string
  pw :: nat
  ph :: nat

definition PRESETS :: "preset list" where
  "PRESETS =
    [\<lparr>pid = ''sg-35x45'', pw = 413, ph = 531\<rparr>,
     \<lparr>pid = ''my-35x50'', pw = 413, ph = 591\<rparr>,
     \<lparr>pid = ''ph-35x45'', pw = 413, ph = 531\<rparr>,
     \<lparr>pid = ''us-2x2'', pw = 600, ph = 600\<rparr>,
     \<lparr>pid = ''schengen-35x45'', pw = 413, ph = 531\<rparr>,
     \<lparr>pid = ''custom'', pw = 600, ph = 600\<rparr>]"

definition PRESETS_full :: "preset list" where
  "PRESETS_full =
    [\<lparr>pid = ''sg-35x45'', pw = 413, ph = 531\<rparr>,
     \<lparr>pid = ''my-35x50'', pw = 413, ph = 591\<rparr>,
     \<lparr>pid = ''ph-35x45'', pw = 413, ph = 531\<rparr>,
     \<lparr>pid = ''us-2x2'', pw = 600, ph = 600\<rparr>,
     \<lparr>pid = ''schengen-35x45'', pw = 413, ph = 531\<rparr>,
     \<lparr>pid = ''custom'', pw = 600, ph = 600\<rparr>]"

text \<open>
  A \<open>File\<close> (its name, absent when the object has none, and its declared MIME type),
  a decoded bitmap (\<open>width\<close> and \<open>height\<close> are unsigned integers of the host) and
  an encoded blob (an opaque handle).
\<close>

record jsfile =
  fname :: "string option"
  ftype :: string

record imgbitmap =
  width :: nat
  height :: nat

datatype blob = Blob nat

text \<open>
  The custom width and height are React state: the Number 600 at first, then the
  string of the input field (\<open>e.target.value\<close>). \<open>Number(v)\<close> converts either.
\<close>

datatype jsval = VNum jsnum | VStr string

fun Number :: "jsval \<Rightarrow> jsnum" where
  "Number (VNum n) = n"
| "Number (VStr s) = StringToNumber s"

text \<open>
  The state of the component (its \<open>useState\<close> cells; \<open>jfile\<close> is the cell
  \<open>file\<close>). The fuller variant of the
  second source file has two more cells, the encoder quality and the background colour.
\<close>

record state =
  jfile :: "jsfile option"
  previewURL :: string
  bitmap :: "imgbitmap option"
  imgNatural :: "nat \<times> nat"
  presetId :: string
  customW :: jsval
  customH :: jsval
  format :: string
  generatedURL :: string
  busy :: bool
  error :: string

record state_full = state +
  quality :: jsnum
  bgColor :: string

text \<open>The crop rectangle handed to \<open>drawImage\<close>.\<close>

record cropRect =
  sx :: jsnum
  sy :: jsnum
  sw :: jsnum
  sh :: jsnum

text \<open>
  What the component asks of its host, in the order of the calls. The anchor element
  that \<open>doResize\<close> creates, clicks and removes is the single event \<open>Download\<close>
  with its \<open>href\<close> and its \<open>download\<close> name.
\<close>

datatype effect =
    CreateObjectURL_File jsfile
  | CreateObjectURL_Blob blob
  | RevokeObjectURL string
  | CreateImageBitmap jsfile bool
  | LoadImageFallback string
  | ConsoleError
  | CanvasWidth jsnum
  | CanvasHeight jsnum
  | CtxSave
  | CtxRestore
  | FillStyle string
  | FillRect jsnum jsnum jsnum jsnum
  | SmoothingEnabled bool
  | SmoothingQuality string
  | DrawImage imgbitmap cropRect jsnum jsnum jsnum jsnum
  | ToBlob string jsnum
  | Download string string

text \<open>
  What the host answers: the URL of \<open>URL.createObjectURL\<close>, whether
  \<open>createImageBitmap\<close> exists, and the outcome of each decoder (\<open>None\<close> when the
  promise rejects); for a resize, the argument of the \<open>toBlob\<close> callback (\<open>None\<close>
  for \<open>null\<close>) and the URL created for the blob.
\<close>

record loadEnv =
  objectURL :: string
  hasCreateImageBitmap :: bool
  decodeOriented :: "imgbitmap option"
  decodePlain :: "imgbitmap option"
  decodeFallback :: "imgbitmap option"

record resizeEnv =
  toBlobResult :: "blob option"
  blobURL :: string

subsection \<open>handleFiles\<close>

definition startsWith :: "string \<Rightarrow> string \<Rightarrow> bool" where
  "startsWith s p = (take (length p) s = p)"

text \<open>The \<open>try\<close> block of \<open>handleFiles\<close>: the bitmap, if any decoder gave one, and the calls made.\<close>

definition decode :: "loadEnv \<Rightarrow> jsfile \<Rightarrow> imgbitmap option \<times> effect list" where
  "decode env f =
    (if hasCreateImageBitmap env then
       (case decodeOriented env of
          Some bmp \<Rightarrow> (Some bmp, [CreateImageBitmap f True])
        | None \<Rightarrow> (decodePlain env, [CreateImageBitmap f True, CreateImageBitmap f False]))
     else (decodeFallback env, [LoadImageFallback (objectURL env)]))"

text \<open>\<open>files?.[0]\<close> of a missing or empty list is \<open>undefined\<close>: the empty list stands for both.\<close>

definition handleFiles :: "loadEnv \<Rightarrow> jsfile list \<Rightarrow> state \<Rightarrow> state \<times> effect list" where
  "handleFiles env files s =
    (case files of
       [] \<Rightarrow> (s, [])
     | f # _ \<Rightarrow>
         if \<not> startsWith (ftype f) ''image/'' then
           (s\<lparr>error := ''Please upload an image file (JPG/PNG/etc).''\<rparr>, [])
         else
           (let s1 = s\<lparr>error := [], jfile := Some f, previewURL := objectURL env\<rparr>
            in case decode env f of
                 (Some bmp, calls) \<Rightarrow>
                   (s1\<lparr>bitmap := Some bmp, imgNatural := (width bmp, height bmp)\<rparr>,
                    CreateObjectURL_File f # calls)
               | (None, calls) \<Rightarrow>
                   (s1\<lparr>error := ''Failed to load image. Try another file.''\<rparr>,
                    CreateObjectURL_File f # calls @ [ConsoleError])))"

subsection \<open>getTargetSize\<close>

definition getTargetSize :: "'a state_scheme \<Rightarrow> jsnum \<times> jsnum" where
  "getTargetSize s =
    (let preset = (case find (\<lambda>p. pid p = presetId s) PRESETS of
                     Some p \<Rightarrow> p
                   | None \<Rightarrow> PRESETS ! 0)
     in if pid preset = ''custom''
        then (orElse (Number (customW s)) (Fin 600), orElse (Number (customH s)) (Fin 600))
        else (ofNat (pw preset), ofNat (ph preset)))"

definition getTargetSize_full :: "'a state_scheme \<Rightarrow> jsnum \<times> jsnum" where
  "getTargetSize_full s =
    (let preset = (case find (\<lambda>p. pid p = presetId s) PRESETS_full of
                     Some p \<Rightarrow> p
                   | None \<Rightarrow> PRESETS_full ! 0)
     in if pid preset = ''custom''
        then (orElse (Number (customW s)) (Fin 600), orElse (Number (customH s)) (Fin 600))
        else (ofNat (pw preset), ofNat (ph preset)))"

subsection \<open>The cover-fit crop of doResize\<close>

text \<open>
  The block of \<open>doResize\<close> between the comment \<open>cover-fit crop\<close> and \<open>drawImage\<close>,
  as a function of the four sizes. It is written twice, once for each source file.
\<close>

definition coverFit :: "jsnum \<Rightarrow> jsnum \<Rightarrow> jsnum \<Rightarrow> jsnum \<Rightarrow> cropRect" where
  "coverFit srcW srcH targetW targetH =
    (let srcAspect = jsdiv srcW srcH;
         dstAspect = jsdiv targetW targetH;
         c = \<lparr>sx = Fin 0, sy = Fin 0, sw = srcW, sh = srcH\<rparr>
     in if jsgt srcAspect dstAspect then
          (let newSw = jsmul srcH dstAspect
           in c\<lparr>sx := Math_max (Fin 0) (jsdiv (jssub srcW newSw) (Fin 2)), sw := newSw\<rparr>)
        else
          (let newSh = jsdiv srcW dstAspect
           in c\<lparr>sy := Math_max (Fin 0) (jsdiv (jssub srcH newSh) (Fin 2)), sh := newSh\<rparr>))"

definition coverFit_full :: "jsnum \<Rightarrow> jsnum \<Rightarrow> jsnum \<Rightarrow> jsnum \<Rightarrow> cropRect" where
  "coverFit_full srcW srcH targetW targetH =
    (let srcAspect = jsdiv srcW srcH;
         dstAspect = jsdiv targetW targetH;
         c = \<lparr>sx = Fin 0, sy = Fin 0, sw = srcW, sh = srcH\<rparr>
     in if jsgt srcAspect dstAspect then
          (let newSw = jsmul srcH dstAspect
           in c\<lparr>sx := Math_max (Fin 0) (jsdiv (jssub srcW newSw) (Fin 2)), sw := newSw\<rparr>)
        else
          (let newSh = jsdiv srcW dstAspect
           in c\<lparr>sy := Math_max (Fin 0) (jsdiv (jssub srcH newSh) (Fin 2)), sh := newSh\<rparr>))"

subsection \<open>The download name\<close>

text \<open>
  \<open>name.replace(/\.(jpg|jpeg|png|heic|webp|bmp)$/i, "")\<close>: the pattern is anchored at
  the end of the name, so it matches a final dot followed by one of the six words,
  letters compared without case; the match is removed.
\<close>

definition lowerChar :: "char \<Rightarrow> char" where
  "lowerChar c = (let n = of_char c :: nat in if 65 \<le> n \<and> n \<le> 90 then char_of (n + 32) else c)"

definition extensions :: "string list" where
  "extensions = [''jpg'', ''jpeg'', ''png'', ''heic'', ''webp'', ''bmp'']"

definition endsWithExt :: "string \<Rightarrow> string \<Rightarrow> bool" where
  "endsWithExt name e =
    (length e < length name
     \<and> map lowerChar (drop (length name - length e - 1) name) = CHR ''.'' # e)"

definition stripExt :: "string \<Rightarrow> string" where
  "stripExt name =
    (case find (endsWithExt name) extensions of
       Some e \<Rightarrow> take (length name - length e - 1) name
     | None \<Rightarrow> name)"

text \<open>\<open>file?.name?.replace(...) || "passport"\<close>: the empty string is falsy.\<close>

definition baseName :: "jsfile option \<Rightarrow> string" where
  "baseName fo =
    (case fo of
       None \<Rightarrow> ''passport''
     | Some f \<Rightarrow>
         (case fname f of
            None \<Rightarrow> ''passport''
          | Some n \<Rightarrow> if stripExt n = [] then ''passport'' else stripExt n))"

definition downloadName :: "jsfile option \<Rightarrow> string \<Rightarrow> jsnum \<Rightarrow> jsnum \<Rightarrow> string" where
  "downloadName fo mime targetW targetH =
    (let ext = (if mime = ''image/png'' then ''png'' else ''jpg'');
         base = baseName fo
     in base @ ''_'' @ NumberToString targetW @ ''x'' @ NumberToString targetH @ ''.'' @ ext)"

subsection \<open>doResize\<close>

text \<open>
  \<open>doResize\<close> of the minimal variant. Without a bitmap it only sets the error. Otherwise
  it sizes the canvas, fills it white, draws the crop and asks for the blob; a \<open>null\<close>
  blob throws, and the \<open>catch\<close> sets the error; \<open>finally\<close> clears \<open>busy\<close>.
\<close>

definition doResize :: "resizeEnv \<Rightarrow> state \<Rightarrow> state \<times> effect list" where
  "doResize env s =
    (case bitmap s of
       None \<Rightarrow> (s\<lparr>error := ''Please upload an image first.''\<rparr>, [])
     | Some bmp \<Rightarrow>
         (let (targetW, targetH) = getTargetSize s;
              c = coverFit (ofNat (width bmp)) (ofNat (height bmp)) targetW targetH;
              mime = format s;
              render =
                [CanvasWidth targetW, CanvasHeight targetH,
                 FillStyle ''#ffffff'', FillRect (Fin 0) (Fin 0) targetW targetH,
                 SmoothingEnabled True, SmoothingQuality ''high'',
                 DrawImage bmp c (Fin 0) (Fin 0) targetW targetH,
                 ToBlob mime (fl (92 / 100))]
          in case toBlobResult env of
               None \<Rightarrow>
                 (s\<lparr>busy := False, error := ''Something went wrong while resizing.''\<rparr>,
                  render @ [ConsoleError])
             | Some b \<Rightarrow>
                 (s\<lparr>busy := False, error := [], generatedURL := blobURL env\<rparr>,
                  render
                  @ (if generatedURL s \<noteq> [] then [RevokeObjectURL (generatedURL s)] else [])
                  @ [CreateObjectURL_Blob b,
                     Download (blobURL env) (downloadName (jfile s) mime targetW targetH)])))"

text \<open>
  \<open>doResize\<close> of the fuller variant: the fill is between \<open>save\<close> and \<open>restore\<close> with
  the colour of the state, and the quality is the one of the state.
\<close>

definition doResize_full :: "resizeEnv \<Rightarrow> state_full \<Rightarrow> state_full \<times> effect list" where
  "doResize_full env s =
    (case bitmap s of
       None \<Rightarrow> (s\<lparr>error := ''Please upload an image first.''\<rparr>, [])
     | Some bmp \<Rightarrow>
         (let (targetW, targetH) = getTargetSize_full s;
              c = coverFit_full (ofNat (width bmp)) (ofNat (height bmp)) targetW targetH;
              mime = format s;
              render =
                [CanvasWidth targetW, CanvasHeight targetH,
                 CtxSave, FillStyle (bgColor s), FillRect (Fin 0) (Fin 0) targetW targetH,
                 CtxRestore,
                 SmoothingEnabled True, SmoothingQuality ''high'',
                 DrawImage bmp c (Fin 0) (Fin 0) targetW targetH,
                 ToBlob mime (quality s)]
          in case toBlobResult env of
               None \<Rightarrow>
                 (s\<lparr>busy := False, error := ''Something went wrong while resizing.''\<rparr>,
                  render @ [ConsoleError])
             | Some b \<Rightarrow>
                 (s\<lparr>busy := False, error := [], generatedURL := blobURL env\<rparr>,
                  render
                  @ (if generatedURL s \<noteq> [] then [RevokeObjectURL (generatedURL s)] else [])
                  @ [CreateObjectURL_Blob b,
                     Download (blobURL env) (downloadName (jfile s) mime targetW targetH)])))"

subsection \<open>Initial state and kinds of host calls\<close>

text \<open>The initial values of the \<open>useState\<close> cells of the minimal variant.\<close>

definition initialState :: state where
  "initialState =
    \<lparr>jfile = None, previewURL = [], bitmap = None, imgNatural = (0, 0),
     presetId = ''sg-35x45'', customW = VNum (Fin 600), customH = VNum (Fin 600),
     format = ''image/jpeg'', generatedURL = [], busy = False, error = []\<rparr>"

definition isDownload :: "effect \<Rightarrow> bool" where
  "isDownload e = (case e of Download _ _ \<Rightarrow> True | _ \<Rightarrow> False)"

definition isDecode :: "effect \<Rightarrow> bool" where
  "isDecode e = (case e of CreateImageBitmap _ _ \<Rightarrow> True | LoadImageFallback _ \<Rightarrow> True | _ \<Rightarrow> False)"



text \<open>
  States used to run the component on concrete inputs: a 35 by 15 picture named
  \<open>photo.gif\<close> has been loaded, the US preset (600 by 600) is selected and an earlier
  resize has left the URL \<open>blob:0\<close>.
\<close>

definition loadedState :: state where
  "loadedState =
    \<lparr>jfile = Some \<lparr>fname = Some ''photo.gif'', ftype = ''image/gif''\<rparr>,
     previewURL = ''blob:1'', bitmap = Some \<lparr>width = 35, height = 15\<rparr>,
     imgNatural = (35, 15),
     presetId = ''us-2x2'', customW = VNum (Fin 600), customH = VNum (Fin 600),
     format = ''image/jpeg'', generatedURL = ''blob:0'', busy = False, error = []\<rparr>"

definition loadedState_full :: state_full where
  "loadedState_full =
    \<lparr>jfile = Some \<lparr>fname = Some ''photo.gif'', ftype = ''image/gif''\<rparr>,
     previewURL = ''blob:1'', bitmap = Some \<lparr>width = 35, height = 15\<rparr>,
     imgNatural = (35, 15),
     presetId = ''us-2x2'', customW = VNum (Fin 600), customH = VNum (Fin 600),
     format = ''image/jpeg'', generatedURL = ''blob:0'', busy = False, error = [],
     quality = fl (92 / 100), bgColor = ''#ffffff''\<rparr>"

text \<open>Properties of a Number that the specification speaks of.\<close>

definition atLeastOne :: "jsnum \<Rightarrow> bool" where
  "atLeastOne n = (case n of PInf \<Rightarrow> True | Fin r \<Rightarrow> 1 \<le> r | _ \<Rightarrow> False)"

definition isInteger :: "jsnum \<Rightarrow> bool" where
  "isInteger n = (case n of Fin r \<Rightarrow> r = of_int \<lfloor>r\<rfloor> | _ \<Rightarrow> False)"

text \<open>The loaded state with the custom preset selected and the two fields filled in.\<close>

definition customState :: "jsval \<Rightarrow> jsval \<Rightarrow> state" where
  "customState cw ch = loadedState\<lparr>presetId := ''custom'', customW := cw, customH := ch\<rparr>"

text \<open>A loaded state whose file has a listed extension, and a host whose encoder succeeds.\<close>

definition jpgState :: state where
  "jpgState = loadedState\<lparr>jfile := Some \<lparr>fname = Some ''Me.JPG'', ftype = ''image/jpeg''\<rparr>\<rparr>"

definition okEnv :: resizeEnv where
  "okEnv = \<lparr>toBlobResult = Some (Blob 7), blobURL = ''blob:2''\<rparr>"

text \<open>
  Sizes in pixels: the width and height of a bitmap are unsigned 32-bit integers of the
  host, and so are the sizes a canvas can take. \<open>isFin\<close> holds of the finite Numbers
  other than the negative zero.
\<close>

definition pixelSize :: "nat \<Rightarrow> bool" where
  "pixelSize n = (0 < n \<and> n < 2 ^ 32)"

definition isFin :: "jsnum \<Rightarrow> bool" where
  "isFin n = (case n of Fin _ \<Rightarrow> True | _ \<Rightarrow> False)"

subsection \<open>The canvas of the host\<close>






section \<open>Evaluating the number model\<close>

lemma floor_rat_numeral_div [simp]:
  "\<lfloor>(numeral a :: rat) / numeral b\<rfloor> = numeral a div numeral b"
  using floor_divide_of_int_eq [of "numeral a" "numeral b", where ?'a = rat] by simp

lemma floor_rat_neg_numeral_div [simp]:
  "\<lfloor>- ((numeral a :: rat) / numeral b)\<rfloor> = - numeral a div numeral b"
  using floor_divide_of_int_eq [of "- numeral a" "numeral b", where ?'a = rat] by simp

lemma floor_rat_one_div [simp]: "\<lfloor>(1 :: rat) / numeral b\<rfloor> = 1 div numeral b"
  using floor_divide_of_int_eq [of 1 "numeral b", where ?'a = rat] by simp

lemmas num_eval = rnd_def ulp_exp_def expo_def round_even_def pow2_def ilog2.simps fl_def
  signedZero_def signedInf_def Let_def ceiling_def

lemmas str_eval = StringToNumber_def trimString_def isWhiteSpace_def nonDecimal_def
  strDecimal_def strUnsignedDecimal_def isDigit_def digitsIn_def hexVal_def exponentPart_def
  signedInteger_def pow10_def

lemma fl_600: "fl 600 = Fin 600"
  by (simp add: num_eval)

lemma shortest_numeral:
  "shortest x n0 k (numeral v) =
    (case digitsAt x n0 k of
       Some s \<Rightarrow> (nat s, k)
     | None \<Rightarrow> shortest x n0 (Suc k) (pred_numeral v))"
  by (simp add: numeral_eq_Suc)

lemma digitsAt_600: "digitsAt 600 3 (Suc 0) = Some 6"
  by (simp add: digitsAt_def pow10_def fl_600)

lemma posToString_600: "posToString 600 = ''600''"
proof -
  have d: "decExp 600 = 3"
    by (simp add: decExp_def ilog10.simps)
  have s: "shortest 600 3 (Suc 0) 16 = (6, Suc 0)"
    by (simp add: shortest_numeral digitsAt_600)
  show ?thesis
    by (simp add: posToString_def d s showNat.simps char_of_eq_iff numeral_2_eq_2)
qed

lemma posToString_5: "posToString 5 = ''5''"
proof -
  have d: "decExp 5 = 1"
    by (simp add: decExp_def ilog10.simps)
  have f: "fl 5 = Fin 5" by (simp add: num_eval)
  have s: "shortest 5 1 (Suc 0) 16 = (5, Suc 0)"
    by (simp add: shortest_numeral digitsAt_def pow10_def f)
  show ?thesis
    by (simp add: posToString_def d s showNat.simps char_of_eq_iff)
qed

text \<open>
  The value \<open>3.3000000000000003\<close> needs 17 digits; of the two candidates
  \<open>33000000000000002\<close> and \<open>33000000000000003\<close>, which both round to it, the closer
  one is taken.
\<close>

lemma sc17: "pow10 (1 - int 17) = 1 / 10000000000000000"
  by (simp add: pow10_def)

lemma y17: "(7430939385161319 / 2251799813685248) / (1 / 10000000000000000 :: rat) = 1133871366144000091552734375 / 34359738368"
  by simp

lemma lo17: "\<lfloor>1133871366144000091552734375 / 34359738368 :: rat\<rfloor> = 33000000000000002"
  by simp

lemma hi17: "\<lceil>1133871366144000091552734375 / 34359738368 :: rat\<rceil> = 33000000000000003"
  by (simp add: ceiling_def)

lemma flo17: "fl (of_int 33000000000000002 * (1 / 10000000000000000)) = Fin (7430939385161319 / 2251799813685248)"
  by (simp add: num_eval)

lemma fhi17: "fl (of_int 33000000000000003 * (1 / 10000000000000000)) = Fin (7430939385161319 / 2251799813685248)"
  by (simp add: num_eval)

lemma digitsAt_17: "digitsAt (7430939385161319 / 2251799813685248) 1 17 = Some 33000000000000003"
  unfolding digitsAt_def Let_def sc17 y17 lo17 hi17 flo17 fhi17 by simp

lemma shortest_17: "shortest (7430939385161319 / 2251799813685248) 1 17 0 = (33000000000000003, 17)"
  by (simp add: digitsAt_17)

section \<open>Rejected files\<close>

text \<open>
  C7. A file whose declared type does not start with \<open>image/\<close> only sets the error
  message: no decoder is called (no host call at all is made), and the stored file, the
  preview URL, the bitmap and the natural size stay as they were.
\<close>

theorem handleFiles_rejects_non_image:
  assumes "\<not> startsWith (ftype f) ''image/''"
  shows "handleFiles env (f # fs) s
           = (s\<lparr>error := ''Please upload an image file (JPG/PNG/etc).''\<rparr>, [])
       \<and> error (fst (handleFiles env (f # fs) s)) \<noteq> []
       \<and> jfile (fst (handleFiles env (f # fs) s)) = jfile s
       \<and> previewURL (fst (handleFiles env (f # fs) s)) = previewURL s
       \<and> bitmap (fst (handleFiles env (f # fs) s)) = bitmap s
       \<and> imgNatural (fst (handleFiles env (f # fs) s)) = imgNatural s
       \<and> filter isDecode (snd (handleFiles env (f # fs) s)) = []"
  using assms by (simp add: handleFiles_def)

theorem handleFiles_rejects_non_image_witness:
  "handleFiles \<lparr>objectURL = ''blob:1'', hasCreateImageBitmap = True,
                 decodeOriented = Some \<lparr>width = 800, height = 600\<rparr>,
                 decodePlain = None, decodeFallback = None\<rparr>
               [\<lparr>fname = Some ''notes.txt'', ftype = ''text/plain''\<rparr>] initialState
   = (initialState\<lparr>error := ''Please upload an image file (JPG/PNG/etc).''\<rparr>, [])"
  using handleFiles_rejects_non_image
    [of "\<lparr>fname = Some ''notes.txt'', ftype = ''text/plain''\<rparr>"
        "\<lparr>objectURL = ''blob:1'', hasCreateImageBitmap = True,
          decodeOriented = Some \<lparr>width = 800, height = 600\<rparr>,
          decodePlain = None, decodeFallback = None\<rparr>" "[]" initialState]
  by (simp add: startsWith_def)

section \<open>The two variants\<close>

text \<open>
  C10. The target size and the crop rectangle of the fuller variant are those of the
  minimal variant, for every state and for every four sizes.
\<close>

theorem variants_agree:
  "getTargetSize_full s = getTargetSize s
   \<and> coverFit_full srcW srcH targetW targetH = coverFit srcW srcH targetW targetH"
  by (simp add: getTargetSize_full_def getTargetSize_def PRESETS_full_def PRESETS_def
      coverFit_full_def coverFit_def)

section \<open>doResize\<close>

lemma getTargetSize_cases:
  "getTargetSize s =
    (if presetId s = ''custom''
     then (orElse (Number (customW s)) (Fin 600), orElse (Number (customH s)) (Fin 600))
     else if presetId s = ''my-35x50'' then (Fin 413, Fin 591)
     else if presetId s = ''us-2x2'' then (Fin 600, Fin 600)
     else (Fin 413, Fin 531))"
  by (simp add: getTargetSize_def PRESETS_def ofNat_def)


lemma doResize_calls:
  assumes "bitmap s = Some bmp"
  shows "snd (doResize env s) =
    [CanvasWidth (fst (getTargetSize s)), CanvasHeight (snd (getTargetSize s)),
     FillStyle ''#ffffff'',
     FillRect (Fin 0) (Fin 0) (fst (getTargetSize s)) (snd (getTargetSize s)),
     SmoothingEnabled True, SmoothingQuality ''high'',
     DrawImage bmp
       (coverFit (ofNat (width bmp)) (ofNat (height bmp))
          (fst (getTargetSize s)) (snd (getTargetSize s)))
       (Fin 0) (Fin 0) (fst (getTargetSize s)) (snd (getTargetSize s)),
     ToBlob (format s) (fl (92 / 100))]
    @ (case toBlobResult env of
         None \<Rightarrow> [ConsoleError]
       | Some b \<Rightarrow>
           (if generatedURL s \<noteq> [] then [RevokeObjectURL (generatedURL s)] else [])
           @ [CreateObjectURL_Blob b,
              Download (blobURL env)
                (downloadName (jfile s) (format s)
                   (fst (getTargetSize s)) (snd (getTargetSize s)))])"
  using assms by (simp add: doResize_def Let_def split: prod.splits option.splits)

lemma doResize_state:
  assumes "bitmap s = Some bmp"
  shows "fst (doResize env s) =
    (case toBlobResult env of
       None \<Rightarrow> s\<lparr>busy := False, error := ''Something went wrong while resizing.''\<rparr>
     | Some b \<Rightarrow> s\<lparr>busy := False, error := [], generatedURL := blobURL env\<rparr>)"
  using assms by (simp add: doResize_def Let_def split: prod.splits option.splits)

lemma doResize_full_calls:
  assumes "bitmap s = Some bmp"
  shows "snd (doResize_full env s) =
    [CanvasWidth (fst (getTargetSize_full s)), CanvasHeight (snd (getTargetSize_full s)),
     CtxSave, FillStyle (bgColor s),
     FillRect (Fin 0) (Fin 0) (fst (getTargetSize_full s)) (snd (getTargetSize_full s)),
     CtxRestore,
     SmoothingEnabled True, SmoothingQuality ''high'',
     DrawImage bmp
       (coverFit_full (ofNat (width bmp)) (ofNat (height bmp))
          (fst (getTargetSize_full s)) (snd (getTargetSize_full s)))
       (Fin 0) (Fin 0) (fst (getTargetSize_full s)) (snd (getTargetSize_full s)),
     ToBlob (format s) (quality s)]
    @ (case toBlobResult env of
         None \<Rightarrow> [ConsoleError]
       | Some b \<Rightarrow>
           (if generatedURL s \<noteq> [] then [RevokeObjectURL (generatedURL s)] else [])
           @ [CreateObjectURL_Blob b,
              Download (blobURL env)
                (downloadName (jfile s) (format s)
                   (fst (getTargetSize_full s)) (snd (getTargetSize_full s)))])"
  using assms by (simp add: doResize_full_def Let_def split: prod.splits option.splits)

lemma doResize_full_state:
  assumes "bitmap s = Some bmp"
  shows "fst (doResize_full env s) =
    (case toBlobResult env of
       None \<Rightarrow> s\<lparr>busy := False, error := ''Something went wrong while resizing.''\<rparr>
     | Some b \<Rightarrow> s\<lparr>busy := False, error := [], generatedURL := blobURL env\<rparr>)"
  using assms by (simp add: doResize_full_def Let_def split: prod.splits option.splits)

text \<open>
  C8. When the encoder hands back no blob (\<open>toBlob\<close> calls back with \<open>null\<close>, the
  failure signal of the host), the resize fails in both variants: the error message is
  set, the stored output URL is the previous one, and nothing is downloaded.
\<close>

theorem encode_failure:
  assumes "toBlobResult env = None" and "bitmap s = Some bmp" and "bitmap t = Some bmp'"
  shows "error (fst (doResize env s)) = ''Something went wrong while resizing.''
       \<and> generatedURL (fst (doResize env s)) = generatedURL s
       \<and> filter isDownload (snd (doResize env s)) = []
       \<and> error (fst (doResize_full env t)) = ''Something went wrong while resizing.''
       \<and> generatedURL (fst (doResize_full env t)) = generatedURL t
       \<and> filter isDownload (snd (doResize_full env t)) = []"
  using assms
  by (simp add: doResize_calls doResize_state doResize_full_calls doResize_full_state
      isDownload_def)

theorem encode_failure_witness:
  "error (fst (doResize \<lparr>toBlobResult = None, blobURL = ''blob:2''\<rparr> loadedState))
     = ''Something went wrong while resizing.''
   \<and> generatedURL (fst (doResize \<lparr>toBlobResult = None, blobURL = ''blob:2''\<rparr> loadedState))
     = ''blob:0''
   \<and> filter isDownload (snd (doResize \<lparr>toBlobResult = None, blobURL = ''blob:2''\<rparr> loadedState))
     = []
   \<and> generatedURL
        (fst (doResize_full \<lparr>toBlobResult = None, blobURL = ''blob:2''\<rparr> loadedState_full))
     = ''blob:0''"
  using encode_failure
    [of "\<lparr>toBlobResult = None, blobURL = ''blob:2''\<rparr>" loadedState
        "\<lparr>width = 35, height = 15\<rparr>" loadedState_full "\<lparr>width = 35, height = 15\<rparr>"]
  by (simp add: loadedState_def loadedState_full_def)

section \<open>The target size\<close>

lemma StringToNumber_12_5: "StringToNumber ''12.5'' = Fin (25 / 2)"
  by (simp add: str_eval num_eval)

lemma StringToNumber_neg5: "StringToNumber ''-5'' = Fin (- 5)"
  by (simp add: str_eval num_eval)

lemma StringToNumber_abc: "StringToNumber ''abc'' = NaN"
  by (simp add: str_eval)



lemma StringToNumber_0: "StringToNumber ''0'' = Fin 0"
  by (simp add: str_eval num_eval)

lemma not_numeric_NaN:
  assumes "trimString str = c # cs" and "c \<notin> set ''0123456789+-.I''"
  shows "StringToNumber str = NaN"
  using assms
  by (auto simp add: StringToNumber_def nonDecimal_def strDecimal_def strUnsignedDecimal_def
      isDigit_def Let_def split: list.splits)

text \<open>
  C5, as stated, fails: \<open>Number(customW) || 600\<close> converts the field to a Number and
  does not make it an integer. With the custom width field holding \<open>12.5\<close> the target
  width is 12.5.
\<close>

theorem custom_size_not_integer:
  "\<not> isInteger (fst (getTargetSize (customState (VStr ''12.5'') (VNum (Fin 600)))))"
  by (simp add: getTargetSize_cases customState_def loadedState_def StringToNumber_12_5
      orElse_def truthy_def isInteger_def)

text \<open>
  C5, amended. With the custom preset, each field is converted to a Number (not
  necessarily an integer) and replaced by 600 exactly when the conversion gives NaN
  or a zero; in particular a field whose first non-blank character cannot start a
  numeric literal gives 600. With a catalog preset other than custom the entry's
  \<open>(w, h)\<close> is returned unchanged, and an unknown preset id gives the first entry.
\<close>

theorem target_size_custom:
  "(presetId s = ''custom'' \<longrightarrow>
      fst (getTargetSize s)
        = (if Number (customW s) = NaN \<or> isZero (Number (customW s)) then Fin 600
           else Number (customW s))
    \<and> snd (getTargetSize s)
        = (if Number (customH s) = NaN \<or> isZero (Number (customH s)) then Fin 600
           else Number (customH s)))
   \<and> (\<forall>str c cs. presetId s = ''custom'' \<and> customW s = VStr str \<and> trimString str = c # cs
         \<and> c \<notin> set ''0123456789+-.I'' \<longrightarrow> fst (getTargetSize s) = Fin 600)
   \<and> (\<forall>str c cs. presetId s = ''custom'' \<and> customH s = VStr str \<and> trimString str = c # cs
         \<and> c \<notin> set ''0123456789+-.I'' \<longrightarrow> snd (getTargetSize s) = Fin 600)
   \<and> (\<forall>p. find (\<lambda>p. pid p = presetId s) PRESETS = Some p \<and> pid p \<noteq> ''custom'' \<longrightarrow>
         getTargetSize s = (ofNat (pw p), ofNat (ph p)))
   \<and> (find (\<lambda>p. pid p = presetId s) PRESETS = None \<longrightarrow> getTargetSize s = (Fin 413, Fin 531))"
proof -
  have a: "presetId s = ''custom'' \<Longrightarrow>
      getTargetSize s
        = (orElse (Number (customW s)) (Fin 600), orElse (Number (customH s)) (Fin 600))"
    by (simp add: getTargetSize_cases)
  have b: "\<And>p. find (\<lambda>p. pid p = presetId s) PRESETS = Some p \<Longrightarrow> pid p \<noteq> ''custom'' \<Longrightarrow>
         getTargetSize s = (ofNat (pw p), ofNat (ph p))"
    by (simp add: getTargetSize_def)
  have c: "find (\<lambda>p. pid p = presetId s) PRESETS = None \<Longrightarrow>
         getTargetSize s = (Fin 413, Fin 531)"
    by (simp add: getTargetSize_def PRESETS_def ofNat_def)
  show ?thesis
    using a b c by (auto simp add: orElse_def truthy_def not_numeric_NaN)
qed

theorem target_size_custom_witness:
  "presetId (customState (VStr ''12.5'') (VStr ''abc'')) = ''custom''
   \<and> getTargetSize (customState (VStr ''12.5'') (VStr ''abc'')) = (Fin (25 / 2), Fin 600)"
  using target_size_custom [of "customState (VStr ''12.5'') (VStr ''abc'')"]
  by (simp add: customState_def loadedState_def StringToNumber_12_5 StringToNumber_abc
      prod_eq_iff)

text \<open>
  C6 does not hold of the code. A custom field that converts to NaN or to a zero is
  replaced by 600, but a negative one is handed on as it is. With the custom width
  field holding \<open>-5\<close> (and the 35 by 15 picture), the target width that reaches the
  cover-fit is \<open>-5\<close>, which is not at least 1; the crop width is negative and the
  download is named \<open>photo.gif_-5x600.jpg\<close>. A field holding \<open>0\<close> gives 600.
\<close>

theorem custom_size_negative:
  "getTargetSize (customState (VStr ''-5'') (VNum (Fin 600))) = (Fin (- 5), Fin 600)
   \<and> \<not> atLeastOne (fst (getTargetSize (customState (VStr ''-5'') (VNum (Fin 600)))))
   \<and> getTargetSize (customState (VStr ''0'') (VNum (Fin 600))) = (Fin 600, Fin 600)
   \<and> valOf (sw (coverFit (ofNat 35) (ofNat 15) (Fin (- 5)) (Fin 600))) < 0
   \<and> filter isDownload (snd (doResize okEnv (customState (VStr ''-5'') (VNum (Fin 600)))))
       = [Download ''blob:2'' ''photo.gif_-5x600.jpg'']"
proof -
  have c: "valOf (sw (coverFit (ofNat 35) (ofNat 15) (Fin (- 5)) (Fin 600))) < 0"
    by (simp add: coverFit_def jsdiv_def jsmul_def jssub_def jsgt_def Math_max_def ofNat_def
        num_eval)
  have b: "bitmap (customState (VStr ''-5'') (VNum (Fin 600))) = Some \<lparr>width = 35, height = 15\<rparr>"
    by (simp add: customState_def loadedState_def)
  have g: "getTargetSize (customState (VStr ''-5'') (VNum (Fin 600))) = (Fin (- 5), Fin 600)"
    by (simp add: getTargetSize_cases customState_def loadedState_def StringToNumber_neg5
        orElse_def truthy_def)
  have z: "getTargetSize (customState (VStr ''0'') (VNum (Fin 600))) = (Fin 600, Fin 600)"
    by (simp add: getTargetSize_cases customState_def loadedState_def StringToNumber_0
        orElse_def truthy_def)
  have n: "baseName (jfile (customState (VStr ''-5'') (VNum (Fin 600)))) = ''photo.gif''"
    by (simp add: customState_def loadedState_def baseName_def stripExt_def endsWithExt_def
        extensions_def lowerChar_def Let_def)
  have f: "format (customState (VStr ''-5'') (VNum (Fin 600))) = ''image/jpeg''"
    "generatedURL (customState (VStr ''-5'') (VNum (Fin 600))) = ''blob:0''"
    by (simp_all add: customState_def loadedState_def)
  have dl: "filter isDownload (snd (doResize okEnv (customState (VStr ''-5'') (VNum (Fin 600)))))
       = [Download ''blob:2'' ''photo.gif_-5x600.jpg'']"
    by (simp add: doResize_calls [OF b] okEnv_def isDownload_def downloadName_def n f g
        posToString_600 posToString_5)
  show ?thesis
    using g z c dl by (simp add: atLeastOne_def)
qed

section \<open>The output surface\<close>












section \<open>The download name\<close>

lemma lowerChar_dot: "lowerChar c = CHR ''.'' \<longleftrightarrow> c = CHR ''.''"
proof
  assume a: "lowerChar c = CHR ''.''"
  show "c = CHR ''.''"
  proof (cases "65 \<le> (of_char c :: nat) \<and> (of_char c :: nat) \<le> 90")
    case True
    then have "lowerChar c = char_of (of_char c + 32 :: nat)"
      by (simp add: lowerChar_def)
    with a have "take_bit 8 (of_char c + 32 :: nat) = 46"
      by (simp add: char_of_eq_iff)
    moreover have "take_bit 8 (of_char c + 32 :: nat) = of_char c + 32"
      using True by (simp add: take_bit_nat_eq_self_iff)
    ultimately show ?thesis using True by simp
  next
    case False
    then show ?thesis using a by (auto simp add: lowerChar_def Let_def)
  qed
qed (simp add: lowerChar_def)

lemma endsWithExt_iff:
  "endsWithExt name e \<longleftrightarrow> (\<exists>stem suf. name = stem @ CHR ''.'' # suf \<and> map lowerChar suf = e)"
proof
  assume a: "endsWithExt name e"
  define k where "k = length name - length e - 1"
  from a have l: "length e < length name" and m: "map lowerChar (drop k name) = CHR ''.'' # e"
    by (simp_all add: endsWithExt_def k_def)
  from m obtain c suf where d: "drop k name = c # suf" and c: "lowerChar c = CHR ''.''"
    and s: "map lowerChar suf = e"
    by (cases "drop k name") auto
  have "name = take k name @ c # suf"
    using d by (metis append_take_drop_id)
  with c s show "\<exists>stem suf. name = stem @ CHR ''.'' # suf \<and> map lowerChar suf = e"
    by (auto simp add: lowerChar_dot)
next
  assume "\<exists>stem suf. name = stem @ CHR ''.'' # suf \<and> map lowerChar suf = e"
  then obtain stem suf where n: "name = stem @ CHR ''.'' # suf" and s: "map lowerChar suf = e"
    by blast
  have "length e = length suf" using s by auto
  then show "endsWithExt name e"
    using n s by (simp add: endsWithExt_def lowerChar_def)
qed

lemma ext_no_dot: "e \<in> set extensions \<Longrightarrow> CHR ''.'' \<notin> set e"
  by (auto simp add: extensions_def)

lemma map_lowerChar_no_dot: "CHR ''.'' \<notin> set (map lowerChar suf) \<Longrightarrow> CHR ''.'' \<notin> set suf"
  by (auto simp add: lowerChar_dot image_iff) (metis lowerChar_dot)

lemma split_last_dot:
  assumes "s1 @ CHR ''.'' # f1 = s2 @ CHR ''.'' # f2"
    and "CHR ''.'' \<notin> set f1" and "CHR ''.'' \<notin> set f2"
  shows "s1 = s2 \<and> f1 = f2"
  using assms
  by (auto simp add: append_eq_append_conv2 append_eq_Cons_conv Cons_eq_append_conv)

lemma endsWithExt_unique:
  assumes "endsWithExt name e1" and "endsWithExt name e2"
    and "e1 \<in> set extensions" and "e2 \<in> set extensions"
  shows "e1 = e2"
proof -
  from assms(1) obtain s1 f1 where n1: "name = s1 @ CHR ''.'' # f1" and m1: "map lowerChar f1 = e1"
    by (auto simp add: endsWithExt_iff)
  from assms(2) obtain s2 f2 where n2: "name = s2 @ CHR ''.'' # f2" and m2: "map lowerChar f2 = e2"
    by (auto simp add: endsWithExt_iff)
  have "CHR ''.'' \<notin> set f1" "CHR ''.'' \<notin> set f2"
    using assms(3,4) m1 m2 ext_no_dot map_lowerChar_no_dot by blast+
  with n1 n2 have "f1 = f2"
    using split_last_dot [of s1 f1 s2 f2] by simp
  with m1 m2 show ?thesis by simp
qed

lemma stripExt_strips:
  assumes "map lowerChar e \<in> set extensions"
  shows "stripExt (stem @ ''.'' @ e) = stem"
proof -
  let ?name = "stem @ ''.'' @ e"
  have w: "endsWithExt ?name (map lowerChar e)"
    by (auto simp add: endsWithExt_iff)
  then obtain e' where f: "find (endsWithExt ?name) extensions = Some e'"
    using assms by (cases "find (endsWithExt ?name) extensions") (auto simp add: find_None_iff)
  then have "endsWithExt ?name e'" and "e' \<in> set extensions"
    by (auto simp add: find_Some_iff)
  with w assms have "e' = map lowerChar e"
    using endsWithExt_unique by blast
  with f show ?thesis
    by (simp add: stripExt_def)
qed

lemma stripExt_keeps:
  assumes "\<not> (\<exists>stem e. name = stem @ ''.'' @ e \<and> map lowerChar e \<in> set extensions)"
  shows "stripExt name = name"
proof -
  have "find (endsWithExt name) extensions = None"
    using assms by (auto simp add: find_None_iff endsWithExt_iff)
  then show ?thesis by (simp add: stripExt_def)
qed


lemma getTargetSize_loaded: "getTargetSize (loadedState\<lparr>jfile := x\<rparr>) = (Fin 600, Fin 600)"
  by (simp add: getTargetSize_cases loadedState_def)

lemma getTargetSize_loaded': "getTargetSize loadedState = (Fin 600, Fin 600)"
  by (simp add: getTargetSize_cases loadedState_def)

text \<open>
  C9, as stated, fails: only the six extensions of the pattern are stripped. A GIF
  picture named \<open>photo.gif\<close> is accepted (its type starts with \<open>image/\<close>), and the
  download is named \<open>photo.gif_600x600.jpg\<close>, the extension still in the base name.
\<close>

theorem extension_not_stripped:
  "filter isDownload (snd (doResize okEnv loadedState))
     = [Download ''blob:2'' ''photo.gif_600x600.jpg'']"
proof -
  have b: "bitmap loadedState = Some \<lparr>width = 35, height = 15\<rparr>"
    by (simp add: loadedState_def)
  have n: "baseName (jfile loadedState) = ''photo.gif''"
    by (simp add: loadedState_def baseName_def stripExt_def endsWithExt_def extensions_def
        lowerChar_def Let_def)
  have f: "format loadedState = ''image/jpeg''" "generatedURL loadedState = ''blob:0''"
    by (simp_all add: loadedState_def)
  show ?thesis
    by (simp add: doResize_calls [OF b] okEnv_def isDownload_def downloadName_def n f
        getTargetSize_loaded' posToString_600)
qed

text \<open>
  C9, amended. A successful resize of either variant triggers one download, named
  base, \<open>_\<close>, target width, \<open>x\<close>, target height, a dot and \<open>png\<close> for the format
  \<open>image/png\<close> or \<open>jpg\<close> otherwise. The base is \<open>passport\<close> when there is no file
  or no name. When the name ends with a dot and one of jpg, jpeg, png, heic, webp, bmp
  (in any letter case), the base is the name without that ending, or \<open>passport\<close> if
  nothing is left. Any other name is the base as it is (\<open>passport\<close> if it is empty).
\<close>

theorem download_name:
  assumes "bitmap s = Some bmp" and "bitmap t = Some bmp'" and "toBlobResult env = Some b"
  shows "filter isDownload (snd (doResize env s))
           = [Download (blobURL env)
                (baseName (jfile s) @ ''_'' @ NumberToString (fst (getTargetSize s)) @ ''x''
                   @ NumberToString (snd (getTargetSize s)) @ ''.''
                   @ (if format s = ''image/png'' then ''png'' else ''jpg''))]
       \<and> filter isDownload (snd (doResize_full env t))
           = [Download (blobURL env)
                (baseName (jfile t) @ ''_'' @ NumberToString (fst (getTargetSize_full t)) @ ''x''
                   @ NumberToString (snd (getTargetSize_full t)) @ ''.''
                   @ (if format t = ''image/png'' then ''png'' else ''jpg''))]
       \<and> baseName None = ''passport''
       \<and> (\<forall>f. fname f = None \<longrightarrow> baseName (Some f) = ''passport'')
       \<and> (\<forall>f stem e. fname f = Some (stem @ ''.'' @ e) \<and> map lowerChar e \<in> set extensions \<longrightarrow>
             baseName (Some f) = (if stem = [] then ''passport'' else stem))
       \<and> (\<forall>f name. fname f = Some name
               \<and> \<not> (\<exists>stem e. name = stem @ ''.'' @ e \<and> map lowerChar e \<in> set extensions) \<longrightarrow>
             baseName (Some f) = (if name = [] then ''passport'' else name))"
proof -
  have 1: "filter isDownload (snd (doResize env s))
           = [Download (blobURL env)
                (baseName (jfile s) @ ''_'' @ NumberToString (fst (getTargetSize s)) @ ''x''
                   @ NumberToString (snd (getTargetSize s)) @ ''.''
                   @ (if format s = ''image/png'' then ''png'' else ''jpg''))]"
    using assms(3) by (simp add: doResize_calls [OF assms(1)] isDownload_def downloadName_def)
  have 2: "filter isDownload (snd (doResize_full env t))
           = [Download (blobURL env)
                (baseName (jfile t) @ ''_'' @ NumberToString (fst (getTargetSize_full t)) @ ''x''
                   @ NumberToString (snd (getTargetSize_full t)) @ ''.''
                   @ (if format t = ''image/png'' then ''png'' else ''jpg''))]"
    using assms(3) by (simp add: doResize_full_calls [OF assms(2)] isDownload_def downloadName_def)
  have 3: "baseName None = ''passport''"
    by (simp add: baseName_def)
  have 4: "\<forall>f. fname f = None \<longrightarrow> baseName (Some f) = ''passport''"
    by (simp add: baseName_def)
  have 5: "\<forall>f stem e. fname f = Some (stem @ ''.'' @ e) \<and> map lowerChar e \<in> set extensions \<longrightarrow>
             baseName (Some f) = (if stem = [] then ''passport'' else stem)"
    using stripExt_strips by (simp add: baseName_def)
  have 6: "\<forall>f name. fname f = Some name
               \<and> \<not> (\<exists>stem e. name = stem @ ''.'' @ e \<and> map lowerChar e \<in> set extensions) \<longrightarrow>
             baseName (Some f) = (if name = [] then ''passport'' else name)"
    using stripExt_keeps by (simp add: baseName_def)
  from 1 2 3 4 5 6 show ?thesis by blast
qed

theorem download_name_witness:
  "filter isDownload (snd (doResize okEnv jpgState)) = [Download ''blob:2'' ''Me_600x600.jpg'']"
proof -
  have b: "bitmap jpgState = Some \<lparr>width = 35, height = 15\<rparr>"
    "bitmap loadedState_full = Some \<lparr>width = 35, height = 15\<rparr>"
    "toBlobResult okEnv = Some (Blob 7)"
    by (simp_all add: jpgState_def loadedState_def loadedState_full_def okEnv_def)
  have n: "baseName (jfile jpgState) = ''Me''"
    by (simp add: jpgState_def baseName_def stripExt_def endsWithExt_def extensions_def
        lowerChar_def Let_def char_of_eq_iff)
  have f: "format jpgState = ''image/jpeg''" "blobURL okEnv = ''blob:2''"
    by (simp_all add: jpgState_def loadedState_def okEnv_def)
  have g: "getTargetSize jpgState = (Fin 600, Fin 600)"
    by (simp add: jpgState_def getTargetSize_loaded)
  show ?thesis
    using download_name [OF b] by (simp add: n f g posToString_600)
qed

section \<open>Properties of the rounding\<close>

text \<open>
  The facts about \<open>rnd\<close> that the crop needs: it moves a value by at most half a
  unit in the last place, keeps the values that are on the grid, and is monotone and
  idempotent.
\<close>

lemma pow2_powi: "pow2 e = 2 powi e"
  by (simp add: pow2_def power_int_def inverse_eq_divide power_one_over)

lemma pow2_pos [simp]: "0 < pow2 e"
  by (simp add: pow2_powi)

lemma pow2_nonzero [simp]: "pow2 e \<noteq> 0"
  by (simp add: pow2_powi)

lemma pow2_not_le [simp]: "\<not> pow2 e \<le> 0"
  by (simp add: not_le)

lemma pow2_0 [simp]: "pow2 0 = 1"
  by (simp add: pow2_def)

lemma pow2_1 [simp]: "pow2 1 = 2"
  by (simp add: pow2_def)

lemma pow2_add: "pow2 (a + b) = pow2 a * pow2 b"
  by (simp add: pow2_powi power_int_add)

lemma pow2_diff: "pow2 (a - b) = pow2 a / pow2 b"
  by (simp add: pow2_powi power_int_diff)

lemma pow2_mono: "a \<le> b \<Longrightarrow> pow2 a \<le> pow2 b"
  by (simp add: pow2_powi power_int_increasing)

lemma pow2_strict_mono: "a < b \<Longrightarrow> pow2 a < pow2 b"
  by (simp add: pow2_powi power_int_strict_increasing)

lemma pow2_le_iff: "pow2 a \<le> pow2 b \<longleftrightarrow> a \<le> b"
  using pow2_mono [of a b] pow2_strict_mono [of b a] by (auto simp add: not_le [symmetric])

lemma pow2_less_iff: "pow2 a < pow2 b \<longleftrightarrow> a < b"
  using pow2_le_iff [of b a] by (auto simp add: not_le [symmetric])

lemma pow2_nat: "pow2 (int n) = 2 ^ n"
  by (simp add: pow2_def)

lemma pow2_neg_nat: "pow2 (- int n) = 1 / 2 ^ n"
  by (auto simp add: pow2_def)

lemma ilog2_bounds: "0 < n \<Longrightarrow> 2 ^ ilog2 n \<le> n \<and> n < 2 ^ (ilog2 n + 1)"
proof (induction n rule: ilog2.induct)
  case (1 n)
  show ?case
  proof (cases "n < 2")
    case True
    with "1.prems" show ?thesis by (simp add: ilog2.simps)
  next
    case False
    then have "0 < n div 2" by simp
    with "1.IH" False have ih: "2 ^ ilog2 (n div 2) \<le> n div 2" "n div 2 < 2 ^ (ilog2 (n div 2) + 1)"
      by simp_all
    have e: "ilog2 n = Suc (ilog2 (n div 2))"
      using False by (subst ilog2.simps) simp
    from ih show ?thesis
      unfolding e by (simp; linarith)
  qed
qed

lemma expo_bounds:
  assumes "x \<noteq> 0"
  shows "pow2 (expo x) \<le> \<bar>x\<bar>" and "\<bar>x\<bar> < pow2 (expo x + 1)"
proof -
  have "pow2 (expo x) \<le> \<bar>x\<bar> \<and> \<bar>x\<bar> < pow2 (expo x + 1)"
  proof (cases "1 \<le> \<bar>x\<bar>")
    case True
    define n where "n = nat \<lfloor>\<bar>x\<bar>\<rfloor>"
    have fl1: "1 \<le> \<lfloor>\<bar>x\<bar>\<rfloor>" using True by (simp add: le_floor_iff)
    then have n0: "0 < n" by (simp add: n_def)
    have "(of_nat n :: rat) = of_int \<lfloor>\<bar>x\<bar>\<rfloor>"
      using fl1 by (simp add: n_def)
    then have nx: "of_nat n \<le> \<bar>x\<bar>" "\<bar>x\<bar> < of_nat n + 1"
      using floor_correct [of "\<bar>x\<bar>"] by simp_all
    from ilog2_bounds [OF n0] have b: "2 ^ ilog2 n \<le> n" "n + 1 \<le> 2 ^ (ilog2 n + 1)"
      by simp_all
    have e: "expo x = int (ilog2 n)"
      using True by (simp add: expo_def n_def)
    have p1: "(2::rat) ^ ilog2 n \<le> of_nat n"
      using of_nat_mono [OF b(1), where ?'a = rat] by simp
    have p2: "(of_nat n + 1 :: rat) \<le> 2 ^ (ilog2 n + 1)"
      using of_nat_mono [OF b(2), where ?'a = rat] by simp
    have "(2::rat) ^ ilog2 n \<le> \<bar>x\<bar>"
      using p1 nx(1) by (rule order_trans)
    moreover have "\<bar>x\<bar> < 2 ^ (ilog2 n + 1)"
      using nx(2) p2 by (rule less_le_trans)
    moreover have "pow2 (expo x + 1) = 2 ^ (ilog2 n + 1)"
      unfolding e using pow2_nat [of "ilog2 n + 1"] by (simp add: add.commute)
    moreover have "pow2 (expo x) = 2 ^ ilog2 n"
      unfolding e by (rule pow2_nat)
    ultimately show ?thesis by simp
  next
    case False
    define y where "y = 1 / \<bar>x\<bar>"
    define n where "n = nat (\<lceil>y\<rceil> - 1)"
    have x0: "0 < \<bar>x\<bar>" using assms by simp
    have y1: "1 < y" using False x0 by (simp add: y_def)
    then have c2: "2 \<le> \<lceil>y\<rceil>" by (simp add: le_ceiling_iff)
    then have n0: "0 < n" by (simp add: n_def)
    have ny: "of_nat n < y" "y \<le> of_nat n + 1"
    proof -
      have "of_int (\<lceil>y\<rceil> - 1) < y" using ceiling_correct [of y] by simp
      moreover have "y \<le> of_int \<lceil>y\<rceil>" by simp
      moreover have "(of_nat n :: rat) = of_int (\<lceil>y\<rceil> - 1)"
        using c2 by (simp add: n_def)
      ultimately show "of_nat n < y" "y \<le> of_nat n + 1" by simp_all
    qed
    from ilog2_bounds [OF n0] have b: "2 ^ ilog2 n \<le> n" "n + 1 \<le> 2 ^ (ilog2 n + 1)"
      by simp_all
    have e: "expo x = - int (ilog2 n) - 1"
      using False by (simp add: expo_def n_def y_def)
    have p1: "(2::rat) ^ ilog2 n \<le> of_nat n"
      using of_nat_mono [OF b(1), where ?'a = rat] by simp
    have p2: "(of_nat n + 1 :: rat) \<le> 2 ^ (ilog2 n + 1)"
      using of_nat_mono [OF b(2), where ?'a = rat] by simp
    have lo: "(2::rat) ^ ilog2 n < y" using p1 ny(1) by (rule le_less_trans)
    have hi: "y \<le> 2 ^ (ilog2 n + 1)" using ny(2) p2 by (rule order_trans)
    have xy: "\<bar>x\<bar> = 1 / y" by (simp add: y_def)
    have "1 / 2 ^ (ilog2 n + 1) \<le> 1 / y"
      using hi y1 by (simp add: frac_le)
    moreover have "1 / y < 1 / 2 ^ ilog2 n"
      using lo by (simp add: frac_less2)
    moreover have "pow2 (expo x) = 1 / 2 ^ (ilog2 n + 1)"
    proof -
      have "- int (ilog2 n) - 1 = - int (ilog2 n + 1)" by simp
      then show ?thesis unfolding e by (simp only: pow2_neg_nat)
    qed
    moreover have "pow2 (expo x + 1) = 1 / 2 ^ ilog2 n"
    proof -
      have "- int (ilog2 n) - 1 + 1 = - int (ilog2 n)" by simp
      then show ?thesis unfolding e by (simp only: pow2_neg_nat)
    qed
    ultimately show ?thesis by (simp add: xy)
  qed
  then show "pow2 (expo x) \<le> \<bar>x\<bar>" and "\<bar>x\<bar> < pow2 (expo x + 1)" by simp_all
qed

lemma expo_unique:
  assumes "pow2 e \<le> \<bar>x\<bar>" and "\<bar>x\<bar> < pow2 (e + 1)"
  shows "expo x = e"
proof -
  have "0 < pow2 e" by simp
  with assms(1) have x0: "x \<noteq> 0" by auto
  from expo_bounds [OF x0] have b: "pow2 (expo x) \<le> \<bar>x\<bar>" "\<bar>x\<bar> < pow2 (expo x + 1)" .
  have "pow2 e < pow2 (expo x + 1)" using assms(1) b(2) by simp
  then have "e < expo x + 1" by (simp add: pow2_less_iff)
  moreover have "pow2 (expo x) < pow2 (e + 1)" using assms(2) b(1) by simp
  then have "expo x < e + 1" by (simp add: pow2_less_iff)
  ultimately show ?thesis by simp
qed

lemma expo_le:
  assumes "x \<noteq> 0" and "\<bar>x\<bar> < pow2 k"
  shows "expo x < k"
proof -
  have "pow2 (expo x) < pow2 k" using expo_bounds(1) [OF assms(1)] assms(2) by simp
  then show ?thesis by (simp add: pow2_less_iff)
qed

lemma expo_ge:
  assumes "pow2 k \<le> \<bar>x\<bar>"
  shows "k \<le> expo x"
proof -
  have "0 < pow2 k" by simp
  with assms have x0: "x \<noteq> 0" by auto
  have "pow2 k < pow2 (expo x + 1)" using expo_bounds(2) [OF x0] assms by simp
  then show ?thesis by (simp add: pow2_less_iff)
qed

lemma expo_mono:
  assumes "x \<noteq> 0" and "\<bar>x\<bar> \<le> \<bar>y\<bar>"
  shows "expo x \<le> expo y"
  using expo_ge [of "expo x" y] expo_bounds(1) [OF assms(1)] assms(2) by simp

lemma expo_uminus [simp]: "expo (- x) = expo x"
  by (simp add: expo_def)

lemma round_even_cases:
  "round_even y = \<lfloor>y\<rfloor> \<or> round_even y = \<lfloor>y\<rfloor> + 1"
  by (simp add: round_even_def Let_def)

lemma round_even_err: "\<bar>of_int (round_even y) - y\<bar> \<le> 1 / 2"
proof -
  have f: "of_int \<lfloor>y\<rfloor> \<le> y" "y < of_int \<lfloor>y\<rfloor> + 1"
    using floor_correct [of y] by simp_all
  show ?thesis
    using f by (auto simp add: round_even_def Let_def abs_le_iff)
qed

lemma round_even_of_int [simp]: "round_even (of_int n) = n"
  by (simp add: round_even_def)

lemma round_even_ge: "of_int n \<le> y \<Longrightarrow> n \<le> round_even y"
proof -
  assume "of_int n \<le> y"
  then have "n \<le> \<lfloor>y\<rfloor>" by (simp add: le_floor_iff)
  then show ?thesis using round_even_cases [of y] by auto
qed

lemma round_even_le: "y \<le> of_int n \<Longrightarrow> round_even y \<le> n"
proof (cases "y = of_int n")
  case True
  then show ?thesis by simp
next
  case False
  assume "y \<le> of_int n"
  with False have "y < of_int n" by simp
  then have "\<lfloor>y\<rfloor> < n" by (simp add: floor_less_iff)
  then show ?thesis using round_even_cases [of y] by auto
qed

lemma round_even_mono: "y \<le> z \<Longrightarrow> round_even y \<le> round_even z"
proof -
  assume yz: "y \<le> z"
  then have fm: "\<lfloor>y\<rfloor> \<le> \<lfloor>z\<rfloor>" by (rule floor_mono)
  show ?thesis
  proof (cases "\<lfloor>y\<rfloor> = \<lfloor>z\<rfloor>")
    case True
    then show ?thesis using yz by (auto simp add: round_even_def Let_def)
  next
    case False
    with fm have "\<lfloor>y\<rfloor> + 1 \<le> \<lfloor>z\<rfloor>" by simp
    then show ?thesis using round_even_cases [of y] round_even_cases [of z] by auto
  qed
qed

lemma round_even_uminus: "round_even (- y) = - round_even y"
proof (cases "y = of_int \<lfloor>y\<rfloor>")
  case True
  then obtain n where "y = of_int n" ..
  then show ?thesis by (simp del: of_int_minus add: of_int_minus [symmetric])
next
  case False
  have f1: "of_int \<lfloor>y\<rfloor> \<le> y" by (rule of_int_floor_le)
  have f2: "of_int \<lfloor>y\<rfloor> < y"
    using False f1 by (metis order.not_eq_order_implies_strict)
  have f3: "y < of_int \<lfloor>y\<rfloor> + 1"
    using floor_correct [of y] by simp
  note f = f2 f3
  have "\<lfloor>- y\<rfloor> = - \<lfloor>y\<rfloor> - 1"
    using f by (intro floor_unique) simp_all
  then show ?thesis
    using f by (auto simp add: round_even_def Let_def)
qed

lemma ulp_exp_uminus [simp]: "ulp_exp (- x) = ulp_exp x"
  by (simp add: ulp_exp_def)

lemma rnd_uminus: "rnd (- x) = - rnd x"
  by (simp add: rnd_def round_even_uminus)

lemma round_even_0 [simp]: "round_even 0 = 0"
  using round_even_of_int [of 0] by simp

lemma rnd_0 [simp]: "rnd 0 = 0"
  by (simp add: rnd_def)

lemma rnd_err: "\<bar>rnd x - x\<bar> \<le> pow2 (ulp_exp x) / 2"
proof -
  define g where "g = pow2 (ulp_exp x)"
  define R :: rat where "R = of_int (round_even (x / g))"
  have g0: "0 < g" by (simp add: g_def)
  have a: "\<bar>R - x / g\<bar> \<le> 1 / 2"
    unfolding R_def by (rule round_even_err)
  have "(R - x / g) * g = R * g - x"
    using g0 by (simp add: algebra_simps)
  then have "\<bar>R * g - x\<bar> = \<bar>R - x / g\<bar> * \<bar>g\<bar>"
    by (simp add: abs_mult [symmetric])
  also have "\<dots> = \<bar>R - x / g\<bar> * g" using g0 by simp
  also have "\<dots> \<le> 1 / 2 * g"
    using a g0 by (intro mult_right_mono) simp_all
  finally have "\<bar>R * g - x\<bar> \<le> g / 2" by simp
  moreover have "rnd x = R * g" by (simp add: rnd_def R_def g_def)
  ultimately show ?thesis by (simp add: g_def)
qed

lemma rnd_le_grid:
  assumes "x \<le> of_int m * pow2 (ulp_exp x)"
  shows "rnd x \<le> of_int m * pow2 (ulp_exp x)"
proof -
  have "x / pow2 (ulp_exp x) \<le> of_int m"
    using assms by (simp add: pos_divide_le_eq)
  then have "round_even (x / pow2 (ulp_exp x)) \<le> m" by (rule round_even_le)
  then have "(of_int (round_even (x / pow2 (ulp_exp x))) :: rat) \<le> of_int m" by simp
  then show ?thesis by (simp add: rnd_def)
qed

lemma rnd_ge_grid:
  assumes "of_int m * pow2 (ulp_exp x) \<le> x"
  shows "of_int m * pow2 (ulp_exp x) \<le> rnd x"
proof -
  have "of_int m \<le> x / pow2 (ulp_exp x)"
    using assms by (simp add: pos_le_divide_eq)
  then have "m \<le> round_even (x / pow2 (ulp_exp x))" by (rule round_even_ge)
  then have "(of_int m :: rat) \<le> of_int (round_even (x / pow2 (ulp_exp x)))" by simp
  then show ?thesis by (simp add: rnd_def)
qed

lemma rnd_nonneg: "0 \<le> x \<Longrightarrow> 0 \<le> rnd x"
  using rnd_ge_grid [of 0 x] by simp

lemma rnd_nonpos: "x \<le> 0 \<Longrightarrow> rnd x \<le> 0"
  using rnd_le_grid [of x 0] by simp

lemma pow2_split: "k \<le> e \<Longrightarrow> pow2 e = of_int (2 ^ nat (e - k)) * pow2 k"
proof -
  assume "k \<le> e"
  then have "pow2 e = pow2 (int (nat (e - k)) + k)" by simp
  also have "\<dots> = pow2 (int (nat (e - k))) * pow2 k" by (rule pow2_add)
  also have "pow2 (int (nat (e - k))) = 2 ^ nat (e - k)" by (rule pow2_nat)
  finally show ?thesis by simp
qed

lemma rnd_fix:
  assumes "x = of_int m * pow2 k" and "ulp_exp x \<le> k"
  shows "rnd x = x"
proof -
  define g where "g = pow2 (ulp_exp x)"
  define M where "M = m * 2 ^ nat (k - ulp_exp x)"
  have g0: "g \<noteq> 0" by (simp add: g_def)
  have "pow2 k = of_int (2 ^ nat (k - ulp_exp x)) * g"
    unfolding g_def using assms(2) by (rule pow2_split)
  then have "of_int m * pow2 k = of_int M * g"
    by (simp add: M_def)
  with assms(1) have xg: "of_int M * g = x" by simp
  then have "of_int M = x / g"
    using g0 by (simp add: nonzero_eq_divide_eq)
  then have "round_even (x / g) = M"
    by (metis round_even_of_int)
  then have "rnd x = of_int M * g"
    by (simp add: rnd_def g_def)
  with xg show ?thesis by simp
qed

lemma rnd_grid:
  assumes "k \<le> ulp_exp x"
  shows "\<exists>m::int. rnd x = of_int m * pow2 k"
proof -
  have "pow2 (ulp_exp x) = of_int (2 ^ nat (ulp_exp x - k)) * pow2 k"
    using assms by (rule pow2_split)
  then have "rnd x = of_int (round_even (x / pow2 (ulp_exp x)) * 2 ^ nat (ulp_exp x - k)) * pow2 k"
    by (simp add: rnd_def)
  then show ?thesis ..
qed

lemma rnd_of_int:
  assumes "\<bar>n\<bar> < 2 ^ 53"
  shows "rnd (of_int n) = of_int n"
proof (cases "n = 0")
  case True
  then show ?thesis by simp
next
  case False
  have "\<bar>of_int n :: rat\<bar> < pow2 53"
  proof -
    have "(of_int \<bar>n\<bar> :: rat) < of_int (2 ^ 53)"
      using assms by (simp only: of_int_less_iff)
    then show ?thesis by (simp add: pow2_def)
  qed
  then have "expo (of_int n) < 53"
    using False by (intro expo_le) simp_all
  then have "ulp_exp (of_int n) \<le> 0"
    by (simp add: ulp_exp_def)
  moreover have "(of_int n :: rat) = of_int n * pow2 0" by simp
  ultimately show ?thesis by (rule rnd_fix [rotated])
qed

lemma pow2_numeral [simp]: "pow2 (numeral n) = 2 ^ numeral n"
  by (simp add: pow2_def)

lemma pow2_neg_numeral [simp]: "pow2 (- numeral n) = 1 / 2 ^ numeral n"
  by (simp add: pow2_def)

lemma rnd_rel:
  assumes "pow2 (- 1022) \<le> \<bar>x\<bar>"
  shows "\<bar>rnd x - x\<bar> \<le> \<bar>x\<bar> / 2 ^ 53"
proof -
  have e: "- 1022 \<le> expo x" using assms by (rule expo_ge)
  then have u: "ulp_exp x = expo x - 52" by (simp add: ulp_exp_def)
  have "0 < pow2 (- 1022)" by (rule pow2_pos)
  with assms have x0: "x \<noteq> 0" by auto
  have "pow2 (ulp_exp x) = pow2 (expo x) / pow2 52"
    unfolding u by (rule pow2_diff)
  then have "pow2 (ulp_exp x) / 2 = pow2 (expo x) / 2 ^ 53"
    by simp
  also have "\<dots> \<le> \<bar>x\<bar> / 2 ^ 53"
    using expo_bounds(1) [OF x0] by (simp add: divide_right_mono)
  finally show ?thesis using rnd_err [of x] by simp
qed

lemma abs_pow2 [simp]: "\<bar>pow2 k\<bar> = pow2 k"
  by (rule abs_of_pos) (rule pow2_pos)

lemma expo_pow2 [simp]: "expo (pow2 k) = k"
proof (rule expo_unique)
  show "pow2 k \<le> \<bar>pow2 k\<bar>" by simp
  show "\<bar>pow2 k\<bar> < pow2 (k + 1)" by (simp add: pow2_less_iff)
qed

lemma rnd_pow2:
  assumes "- 1074 \<le> k"
  shows "rnd (pow2 k) = pow2 k"
proof (rule rnd_fix)
  show "pow2 k = of_int 1 * pow2 k" by simp
  show "ulp_exp (pow2 k) \<le> k" using assms by (simp add: ulp_exp_def)
qed

lemma rnd_upper:
  assumes "0 < x"
  shows "rnd x \<le> pow2 (max (expo x) (- 1022) + 1)"
proof -
  define E where "E = max (expo x) (- 1022)"
  have x0: "x \<noteq> 0" using assms by simp
  have "\<bar>x\<bar> < pow2 (expo x + 1)" using expo_bounds(2) [OF x0] .
  also have "\<dots> \<le> pow2 (E + 1)" by (simp add: pow2_le_iff E_def)
  finally have "x \<le> pow2 (E + 1)" using assms by simp
  moreover have "pow2 (E + 1) = of_int (2 ^ nat ((E + 1) - ulp_exp x)) * pow2 (ulp_exp x)"
    by (rule pow2_split) (simp add: ulp_exp_def E_def)
  ultimately have "rnd x \<le> of_int (2 ^ nat ((E + 1) - ulp_exp x)) * pow2 (ulp_exp x)"
    by (intro rnd_le_grid) simp
  then show ?thesis
    using \<open>pow2 (E + 1) = of_int (2 ^ nat ((E + 1) - ulp_exp x)) * pow2 (ulp_exp x)\<close>
    by (simp add: E_def)
qed

lemma rnd_lower:
  assumes "0 < x" and "- 1022 \<le> expo x"
  shows "pow2 (expo x) \<le> rnd x"
proof -
  have x0: "x \<noteq> 0" using assms by simp
  have "pow2 (expo x) \<le> x" using expo_bounds(1) [OF x0] assms(1) by simp
  moreover have p: "pow2 (expo x) = of_int (2 ^ nat (expo x - ulp_exp x)) * pow2 (ulp_exp x)"
    using assms(2) by (intro pow2_split) (simp add: ulp_exp_def)
  ultimately have "of_int (2 ^ nat (expo x - ulp_exp x)) * pow2 (ulp_exp x) \<le> rnd x"
    by (intro rnd_ge_grid) simp
  then show ?thesis using p by simp
qed

lemma rnd_mono_pos:
  assumes "0 < x" and "x \<le> y"
  shows "rnd x \<le> rnd y"
proof -
  have y0: "0 < y" using assms by simp
  have xe: "expo x \<le> expo y"
    using assms by (intro expo_mono) simp_all
  then have ue: "ulp_exp x \<le> ulp_exp y" by (simp add: ulp_exp_def)
  show ?thesis
  proof (cases "ulp_exp x = ulp_exp y")
    case True
    define g where "g = pow2 (ulp_exp y)"
    have g0: "0 < g" by (simp add: g_def)
    have "x / g \<le> y / g" using assms(2) g0 by (simp add: divide_right_mono)
    then have "round_even (x / g) \<le> round_even (y / g)" by (rule round_even_mono)
    then have "(of_int (round_even (x / g)) :: rat) \<le> of_int (round_even (y / g))" by simp
    then have "of_int (round_even (x / g)) * g \<le> of_int (round_even (y / g)) * g"
      using g0 by (simp add: mult_right_mono)
    then show ?thesis by (simp add: rnd_def True g_def)
  next
    case False
    with ue have lt: "max (expo x) (- 1022) < max (expo y) (- 1022)"
      unfolding ulp_exp_def by linarith
    then have ey: "- 1022 \<le> expo y" "max (expo x) (- 1022) + 1 \<le> expo y"
      by linarith+
    have "rnd x \<le> pow2 (max (expo x) (- 1022) + 1)" using assms(1) by (rule rnd_upper)
    also have "\<dots> \<le> pow2 (expo y)" using ey(2) by (simp add: pow2_le_iff)
    also have "\<dots> \<le> rnd y" using y0 ey(1) by (rule rnd_lower)
    finally show ?thesis .
  qed
qed

lemma rnd_mono:
  assumes "x \<le> y"
  shows "rnd x \<le> rnd y"
proof (cases "0 < x")
  case True
  then show ?thesis using assms by (rule rnd_mono_pos)
next
  case False
  then have x: "x \<le> 0" by simp
  show ?thesis
  proof (cases "0 \<le> y")
    case True
    have "rnd x \<le> 0" using x by (rule rnd_nonpos)
    also have "0 \<le> rnd y" using True by (rule rnd_nonneg)
    finally show ?thesis .
  next
    case False
    then have "0 < - y" "- y \<le> - x" using assms by simp_all
    then have "rnd (- y) \<le> rnd (- x)" by (rule rnd_mono_pos)
    then show ?thesis by (simp add: rnd_uminus)
  qed
qed

lemma rnd_idem_pos:
  assumes "0 < x"
  shows "rnd (rnd x) = rnd x"
proof -
  define E where "E = max (expo x) (- 1022)"
  define r where "r = rnd x"
  have r0: "0 \<le> r" using assms by (simp add: r_def rnd_nonneg)
  have ru: "r \<le> pow2 (E + 1)" using rnd_upper [OF assms] by (simp add: r_def E_def)
  have rg: "r = of_int (round_even (x / pow2 (ulp_exp x))) * pow2 (ulp_exp x)"
    by (simp add: r_def rnd_def)
  have ux: "ulp_exp x = E - 52" by (simp add: ulp_exp_def E_def)
  have E: "- 1022 \<le> E" by (simp add: E_def)
  consider "r = 0" | "r = pow2 (E + 1)" | "0 < r" "r < pow2 (E + 1)"
    using r0 ru by fastforce
  then have "rnd r = r"
  proof cases
    case 1
    then show ?thesis by simp
  next
    case 2
    have "rnd (pow2 (E + 1)) = pow2 (E + 1)" using E by (intro rnd_pow2) simp
    then show ?thesis using 2 by simp
  next
    case 3
    have "expo r < E + 1" using 3 by (intro expo_le) simp_all
    then have "ulp_exp r \<le> E - 52" using E by (simp add: ulp_exp_def)
    then have "ulp_exp r \<le> ulp_exp x" by (simp only: ux)
    with rg show ?thesis by (rule rnd_fix)
  qed
  then show ?thesis by (simp add: r_def)
qed

lemma rnd_idem [simp]: "rnd (rnd x) = rnd x"
proof (cases "0 < x")
  case True
  then show ?thesis by (rule rnd_idem_pos)
next
  case False
  show ?thesis
  proof (cases "x = 0")
    case True
    then show ?thesis by simp
  next
    case False
    with \<open>\<not> 0 < x\<close> have "0 < - x" by simp
    then have "rnd (rnd (- x)) = rnd (- x)" by (rule rnd_idem_pos)
    then show ?thesis by (simp add: rnd_uminus)
  qed
qed

lemma fl_normal:
  assumes "pow2 (- 1022) \<le> \<bar>x\<bar>" and "\<bar>x\<bar> < pow2 1023"
  shows "fl x = Fin (rnd x)" and "rnd x \<noteq> 0"
proof -
  have e: "\<bar>rnd x - x\<bar> \<le> \<bar>x\<bar> / 2 ^ 53" using assms(1) by (rule rnd_rel)
  have "0 < pow2 (- 1022)" by (rule pow2_pos)
  with assms(1) have x0: "0 < \<bar>x\<bar>" by linarith
  have "\<bar>x\<bar> / 2 ^ 53 = \<bar>x\<bar> * (1 / 2 ^ 53)" by simp
  also have "\<dots> < \<bar>x\<bar> * 1"
    using x0 by (intro mult_strict_left_mono) simp_all
  finally have "\<bar>x\<bar> / 2 ^ 53 < \<bar>x\<bar>" by simp
  with e have lt: "\<bar>rnd x - x\<bar> < \<bar>x\<bar>" by (rule le_less_trans)
  then show nz: "rnd x \<noteq> 0" by auto
  have "\<bar>rnd x\<bar> \<le> \<bar>rnd x - x\<bar> + \<bar>x\<bar>" by simp
  also have "\<dots> < 2 * \<bar>x\<bar>" using lt by simp
  also have "\<dots> < 2 * pow2 1023" using assms(2) by simp
  also have "\<dots> = 2 ^ 1024" by simp
  finally have "\<not> 2 ^ 1024 \<le> \<bar>rnd x\<bar>" by simp
  then show "fl x = Fin (rnd x)" using nz by (simp add: fl_def Let_def)
qed

lemma fl_neg_cases:
  assumes "x < 0"
  shows "fl x = NInf \<or> fl x = NZero \<or> (\<exists>r. r < 0 \<and> fl x = Fin r)"
proof -
  have "rnd x \<le> 0" using assms by (intro rnd_nonpos) simp
  then show ?thesis
    using assms by (auto simp add: fl_def Let_def signedInf_def signedZero_def)
qed

lemma clamp_neg:
  assumes "x < 0"
  shows "Math_max (Fin 0) (jsdiv (fl x) (Fin 2)) = Fin 0"
proof -
  have m: "\<And>y. y < 0 \<Longrightarrow> Math_max (Fin 0) (fl y) = Fin 0"
  proof -
    fix y :: rat
    assume "y < 0"
    from fl_neg_cases [OF this] show "Math_max (Fin 0) (fl y) = Fin 0"
      by (auto simp add: Math_max_def jsgt_def)
  qed
  from fl_neg_cases [OF assms] show ?thesis
  proof (elim disjE exE conjE)
    assume "fl x = NInf"
    then show ?thesis by (simp add: jsdiv_def Math_max_def jsgt_def signedInf_def)
  next
    assume "fl x = NZero"
    then show ?thesis by (simp add: jsdiv_def Math_max_def jsgt_def signedZero_def)
  next
    fix r :: rat
    assume "r < 0" and f: "fl x = Fin r"
    then have "r / 2 < 0" by simp
    from m [OF this] show ?thesis using f \<open>r < 0\<close> by (simp add: jsdiv_def)
  qed
qed

section \<open>The cover-fit crop on pixel sizes\<close>

lemma rnd_ge_pow2:
  assumes "pow2 k \<le> x" and "- 1074 \<le> k"
  shows "pow2 k \<le> rnd x"
  using rnd_mono [OF assms(1)] rnd_pow2 [OF assms(2)] by simp

lemma rnd_le_pow2:
  assumes "x \<le> pow2 k" and "- 1074 \<le> k"
  shows "rnd x \<le> pow2 k"
  using rnd_mono [OF assms(1)] rnd_pow2 [OF assms(2)] by simp

lemma pixel_rat:
  assumes "pixelSize n"
  shows "1 \<le> (of_nat n :: rat)" and "(of_nat n :: rat) < 2 ^ 32"
proof -
  from assms have "1 \<le> n" "n < 2 ^ 32" by (simp_all add: pixelSize_def)
  then show "1 \<le> (of_nat n :: rat)" and "(of_nat n :: rat) < 2 ^ 32"
    using of_nat_less_iff [of n "2 ^ 32", where ?'a = rat] by simp_all
qed

lemma ratio_range:
  assumes "pixelSize c" and "pixelSize e"
  shows "pow2 (- 32) \<le> of_nat c / of_nat e" and "of_nat c / of_nat e \<le> pow2 32"
proof -
  note c = pixel_rat [OF assms(1)] and e = pixel_rat [OF assms(2)]
  have "1 / 2 ^ 32 \<le> 1 / (of_nat e :: rat)"
    using e by (intro divide_left_mono) simp_all
  also have "\<dots> \<le> of_nat c / of_nat e"
    using c e by (intro divide_right_mono) simp_all
  finally show "pow2 (- 32) \<le> of_nat c / of_nat e" by simp
  have "of_nat c / of_nat e \<le> (of_nat c :: rat) / 1"
    using c e by (intro divide_left_mono) simp_all
  then show "of_nat c / of_nat e \<le> pow2 32" using c by simp
qed

lemma fl_range:
  assumes "pow2 k \<le> x" and "x \<le> pow2 l" and "- 1022 \<le> k" and "l < 1023"
  shows "fl x = Fin (rnd x)" and "pow2 k \<le> rnd x" and "rnd x \<le> pow2 l"
    and "\<bar>rnd x - x\<bar> \<le> x / 2 ^ 53"
proof -
  have x0: "0 < x" using assms(1) pow2_pos [of k] by linarith
  have a: "pow2 (- 1022) \<le> \<bar>x\<bar>"
    using assms(1,3) x0 pow2_mono [of "- 1022" k] by simp
  have b: "\<bar>x\<bar> < pow2 1023"
    using assms(2,4) x0 pow2_strict_mono [of l 1023] by simp
  show "fl x = Fin (rnd x)" using a b by (rule fl_normal)
  show "pow2 k \<le> rnd x" using assms(1,3) by (intro rnd_ge_pow2) simp_all
  have "pow2 k \<le> pow2 l" using assms(1,2) by (rule order_trans)
  then have "k \<le> l" by (simp add: pow2_le_iff)
  then show "rnd x \<le> pow2 l" using assms(2,3) by (intro rnd_le_pow2) simp_all
  show "\<bar>rnd x - x\<bar> \<le> x / 2 ^ 53" using rnd_rel [OF a] x0 by simp
qed

lemma jsdiv_pixels:
  assumes "pixelSize c" and "pixelSize e"
  shows "jsdiv (ofNat c) (ofNat e) = Fin (rnd (of_nat c / of_nat e))"
proof -
  note c = pixel_rat [OF assms(1)] and e = pixel_rat [OF assms(2)]
  have "fl (of_nat c / of_nat e) = Fin (rnd (of_nat c / of_nat e))"
    using ratio_range [OF assms] by (intro fl_range(1) [where k = "- 32" and l = 32]) simp_all
  then show ?thesis
    using c e by (simp add: jsdiv_def ofNat_def)
qed

lemma centre_offset:
  assumes n: "pixelSize n" and W: "W = of_int m * pow2 (- 84)" "0 < W" "W \<le> pow2 64"
  shows "\<exists>p. Math_max (Fin 0) (jsdiv (jssub (ofNat n) (Fin W)) (Fin 2)) = Fin p \<and> 0 \<le> p
     \<and> (W \<le> of_nat n \<longrightarrow> p + W \<le> of_nat n
          \<and> jsdiv (jssub (ofNat n) (Fin W)) (Fin 2) = Fin p)
     \<and> (of_nat n < W \<longrightarrow> p = 0)"
proof -
  note nr = pixel_rat [OF n]
  consider "W = of_nat n" | "W < of_nat n" | "of_nat n < W" by linarith
  then show ?thesis
  proof cases
    case 1
    then have "jssub (ofNat n) (Fin W) = Fin 0"
      by (simp add: jssub_def ofNat_def signedZero_def)
    then have "jsdiv (jssub (ofNat n) (Fin W)) (Fin 2) = Fin 0"
      by (simp add: jsdiv_def signedZero_def)
    then show ?thesis using 1 W(2) by (simp add: Math_max_def jsgt_def)
  next
    case 2
    define s where "s = of_nat n - W"
    define k where "k = int n * 2 ^ 84 - m"
    have sk: "s = of_int k * pow2 (- 84)"
      by (simp add: s_def k_def W(1) algebra_simps)
    have s0: "0 < s" using 2 by (simp add: s_def)
    have "0 < k"
    proof (rule ccontr)
      assume "\<not> 0 < k"
      then have "(of_int k :: rat) \<le> 0" by simp
      then have "of_int k * pow2 (- 84) \<le> 0"
        by (intro mult_nonpos_nonneg) simp_all
      with sk s0 show False by simp
    qed
    then have "(1 :: rat) \<le> of_int k" by simp
    then have "1 * pow2 (- 84) \<le> of_int k * pow2 (- 84)"
      by (intro mult_right_mono) simp_all
    then have slo: "pow2 (- 84) \<le> s" using sk by simp
    have shi: "s \<le> pow2 32" using W(2) nr by (simp add: s_def)
    note f1 = fl_range [OF slo shi]
    define s1 where "s1 = rnd s"
    have s1: "fl s = Fin s1" "pow2 (- 84) \<le> s1" "s1 \<le> pow2 32" "\<bar>s1 - s\<bar> \<le> s / 2 ^ 53"
      using f1 by (simp_all add: s1_def)
    have hlo: "pow2 (- 85) \<le> s1 / 2" using s1(2) by simp
    have hhi: "s1 / 2 \<le> pow2 31" using s1(3) by simp
    note f2 = fl_range [OF hlo hhi]
    define p where "p = rnd (s1 / 2)"
    have p: "fl (s1 / 2) = Fin p" "pow2 (- 85) \<le> p" "\<bar>p - s1 / 2\<bar> \<le> s1 / 2 / 2 ^ 53"
      using f2 by (simp_all add: p_def)
    have p0: "0 < p" using p(2) pow2_pos [of "- 85"] by linarith
    have s10: "0 < s1" using s1(2) pow2_pos [of "- 84"] by linarith
    have sub: "jssub (ofNat n) (Fin W) = Fin s1"
      using s0 s1(1) by (simp add: jssub_def ofNat_def s_def)
    have dv: "jsdiv (jssub (ofNat n) (Fin W)) (Fin 2) = Fin p"
      using s10 p(1) by (simp add: sub jsdiv_def)
    have mx: "Math_max (Fin 0) (Fin p) = Fin p"
      using p0 by (simp add: Math_max_def jsgt_def)
    have a1: "p - s1 / 2 \<le> s1 / 2 / 2 ^ 53" using p(3) by (rule abs_le_D1)
    have a2: "s1 - s \<le> s / 2 ^ 53" using s1(4) by (rule abs_le_D1)
    have "p \<le> s"
      using a1 a2 s0 by simp
    then have "p + W \<le> of_nat n" by (simp add: s_def)
    then show ?thesis using dv mx p0 2 by simp
  next
    case 3
    then have "of_nat n - W < 0" by simp
    then have "Math_max (Fin 0) (jsdiv (fl (of_nat n - W)) (Fin 2)) = Fin 0"
      by (rule clamp_neg)
    moreover have "jssub (ofNat n) (Fin W) = fl (of_nat n - W)"
      using 3 by (simp add: jssub_def ofNat_def)
    ultimately show ?thesis using 3 by simp
  qed
qed

lemma rounded_props:
  assumes "pow2 (- 32) \<le> x" and "x \<le> pow2 64"
  shows "fl x = Fin (rnd x)" and "\<exists>m::int. rnd x = of_int m * pow2 (- 84)"
    and "pow2 (- 32) \<le> rnd x" and "rnd x \<le> pow2 64" and "\<bar>rnd x - x\<bar> \<le> x / 2 ^ 53"
proof -
  show "fl x = Fin (rnd x)" "pow2 (- 32) \<le> rnd x" "rnd x \<le> pow2 64"
    "\<bar>rnd x - x\<bar> \<le> x / 2 ^ 53"
    using fl_range [OF assms] by simp_all
  have "0 < pow2 (- 32)" by (rule pow2_pos)
  with assms(1) have "pow2 (- 32) \<le> \<bar>x\<bar>" by linarith
  then have "- 32 \<le> expo x" by (rule expo_ge)
  then have "- 84 \<le> ulp_exp x" by (simp add: ulp_exp_def)
  then show "\<exists>m::int. rnd x = of_int m * pow2 (- 84)" by (rule rnd_grid)
qed

lemma ratio_rounded:
  assumes "pixelSize c" and "pixelSize e"
  shows "pow2 (- 32) \<le> rnd (of_nat c / of_nat e)" and "rnd (of_nat c / of_nat e) \<le> pow2 32"
    and "\<bar>rnd (of_nat c / of_nat e) - of_nat c / of_nat e\<bar> \<le> of_nat c / of_nat e / 2 ^ 53"
  using fl_range [OF ratio_range [OF assms]] by simp_all

lemma width_range:
  assumes "pixelSize b" and "pow2 (- 32) \<le> d" and "d \<le> pow2 32"
  shows "pow2 (- 32) \<le> of_nat b * d" and "of_nat b * d \<le> pow2 64"
proof -
  note b = pixel_rat [OF assms(1)]
  have d0: "0 < d" using assms(2) pow2_pos [of "- 32"] by linarith
  have "1 * d \<le> of_nat b * d" using b(1) d0 by (intro mult_right_mono) simp_all
  then have "d \<le> of_nat b * d" by simp
  with assms(2) show "pow2 (- 32) \<le> of_nat b * d" by (rule order_trans)
  have "of_nat b * d \<le> 2 ^ 32 * pow2 32"
    using b assms(3) d0 by (intro mult_mono) simp_all
  then show "of_nat b * d \<le> pow2 64" by simp
qed

lemma height_range:
  assumes "pixelSize a" and "pow2 (- 32) \<le> d" and "d \<le> pow2 32"
  shows "pow2 (- 32) \<le> of_nat a / d" and "of_nat a / d \<le> pow2 64"
proof -
  note a = pixel_rat [OF assms(1)]
  have d0: "0 < d" using assms(2) pow2_pos [of "- 32"] by linarith
  have "1 / pow2 32 \<le> 1 / d" using assms(3) d0 by (intro divide_left_mono) simp_all
  also have "\<dots> \<le> of_nat a / d" using a(1) d0 by (intro divide_right_mono) simp_all
  finally show "pow2 (- 32) \<le> of_nat a / d" by simp
  have "of_nat a / d \<le> of_nat a / pow2 (- 32)"
    using a assms(2) d0 by (intro divide_left_mono) simp_all
  also have "\<dots> \<le> 2 ^ 32 / pow2 (- 32)"
    using a by (intro divide_right_mono) simp_all
  finally show "of_nat a / d \<le> pow2 64" by simp
qed

lemma cover_shape:
  assumes "pixelSize a" and "pixelSize b" and "pixelSize c" and "pixelSize e"
  shows "jsdiv (ofNat a) (ofNat b) = Fin (rnd (of_nat a / of_nat b))"
    and "jsdiv (ofNat c) (ofNat e) = Fin (rnd (of_nat c / of_nat e))"
    and "jsgt (jsdiv (ofNat a) (ofNat b)) (jsdiv (ofNat c) (ofNat e))
           \<longleftrightarrow> rnd (of_nat c / of_nat e) < rnd (of_nat a / of_nat b)"
    and "jsmul (ofNat b) (jsdiv (ofNat c) (ofNat e))
           = Fin (rnd (of_nat b * rnd (of_nat c / of_nat e)))"
    and "jsdiv (ofNat a) (jsdiv (ofNat c) (ofNat e))
           = Fin (rnd (of_nat a / rnd (of_nat c / of_nat e)))"
proof -
  define d where "d = rnd (of_nat c / of_nat e)"
  note dr = ratio_rounded [OF assms(3,4), folded d_def]
  have d0: "0 < d" using dr(1) pow2_pos [of "- 32"] by linarith
  note a = pixel_rat [OF assms(1)] and b = pixel_rat [OF assms(2)]
  show 1: "jsdiv (ofNat a) (ofNat b) = Fin (rnd (of_nat a / of_nat b))"
    using assms(1,2) by (rule jsdiv_pixels)
  show 2: "jsdiv (ofNat c) (ofNat e) = Fin (rnd (of_nat c / of_nat e))"
    using assms(3,4) by (rule jsdiv_pixels)
  show "jsgt (jsdiv (ofNat a) (ofNat b)) (jsdiv (ofNat c) (ofNat e))
           \<longleftrightarrow> rnd (of_nat c / of_nat e) < rnd (of_nat a / of_nat b)"
    by (simp add: 1 2 jsgt_def)
  have "fl (of_nat b * d) = Fin (rnd (of_nat b * d))"
    using width_range [OF assms(2) dr(1,2)] by (rule rounded_props(1))
  then have "jsmul (ofNat b) (Fin d) = Fin (rnd (of_nat b * d))"
    using b d0 by (simp add: jsmul_def ofNat_def)
  then show "jsmul (ofNat b) (jsdiv (ofNat c) (ofNat e))
           = Fin (rnd (of_nat b * rnd (of_nat c / of_nat e)))"
    unfolding 2 d_def .
  have "fl (of_nat a / d) = Fin (rnd (of_nat a / d))"
    using height_range [OF assms(1) dr(1,2)] by (rule rounded_props(1))
  then have "jsdiv (ofNat a) (Fin d) = Fin (rnd (of_nat a / d))"
    using a d0 by (simp add: jsdiv_def ofNat_def)
  then show "jsdiv (ofNat a) (jsdiv (ofNat c) (ofNat e))
           = Fin (rnd (of_nat a / rnd (of_nat c / of_nat e)))"
    unfolding 2 d_def .
qed

lemma coverFit_pixels:
  assumes "pixelSize a" and "pixelSize b" and "pixelSize c" and "pixelSize e"
  shows "coverFit (ofNat a) (ofNat b) (ofNat c) (ofNat e) =
    (if rnd (of_nat c / of_nat e) < rnd (of_nat a / of_nat b) then
       \<lparr>sx = Math_max (Fin 0)
               (jsdiv (jssub (ofNat a) (Fin (rnd (of_nat b * rnd (of_nat c / of_nat e))))) (Fin 2)),
        sy = Fin 0,
        sw = Fin (rnd (of_nat b * rnd (of_nat c / of_nat e))),
        sh = ofNat b\<rparr>
     else
       \<lparr>sx = Fin 0,
        sy = Math_max (Fin 0)
               (jsdiv (jssub (ofNat b) (Fin (rnd (of_nat a / rnd (of_nat c / of_nat e))))) (Fin 2)),
        sw = ofNat a,
        sh = Fin (rnd (of_nat a / rnd (of_nat c / of_nat e)))\<rparr>)"
  unfolding coverFit_def Let_def cover_shape(3,4,5) [OF assms] by simp

lemma wide_fits:
  assumes "pixelSize a" and "pixelSize b" and "pixelSize c" and "pixelSize e"
    and "rnd (of_nat c / of_nat e) < rnd (of_nat a / of_nat b)"
  shows "rnd (of_nat b * rnd (of_nat c / of_nat e)) \<le> of_nat a"
proof -
  define d where "d = rnd (of_nat c / of_nat e)"
  define q :: rat where "q = of_nat a / of_nat b"
  note b = pixel_rat [OF assms(2)]
  have "d \<le> q"
  proof (rule ccontr)
    assume "\<not> d \<le> q"
    then have "q \<le> d" by simp
    then have "rnd q \<le> rnd d" by (rule rnd_mono)
    then show False using assms(5) by (simp add: d_def q_def)
  qed
  then have "of_nat b * d \<le> of_nat b * q"
    using b by (intro mult_left_mono) simp_all
  also have "\<dots> = of_nat a" using b by (simp add: q_def)
  finally have "rnd (of_nat b * d) \<le> rnd (of_nat a)" by (rule rnd_mono)
  moreover have "rnd (of_int (int a)) = of_int (int a)"
    using assms(1) by (intro rnd_of_int) (simp add: pixelSize_def)
  ultimately show ?thesis by (simp add: d_def)
qed

lemma tall_bound:
  assumes "pixelSize a" and "pixelSize b" and "pixelSize c" and "pixelSize e"
    and "\<not> rnd (of_nat c / of_nat e) < rnd (of_nat a / of_nat b)"
  shows "rnd (of_nat a / rnd (of_nat c / of_nat e)) \<le> of_nat b * (1 + 1 / 2 ^ 51)"
proof -
  define d where "d = rnd (of_nat c / of_nat e)"
  define q :: rat where "q = of_nat a / of_nat b"
  define t :: rat where "t = of_nat a / d"
  note a = pixel_rat [OF assms(1)] and b = pixel_rat [OF assms(2)]
  note dr = ratio_rounded [OF assms(3,4), folded d_def]
  note dq = ratio_rounded [OF assms(1,2), folded q_def]
  have d0: "0 < d" using dr(1) pow2_pos [of "- 32"] by linarith
  have q0: "0 < q" using a b by (simp add: q_def)
  have qb: "q * of_nat b = of_nat a" using b by (simp add: q_def)
  have "- (rnd q - q) \<le> q / 2 ^ 53" using dq(3) by (rule abs_le_D2)
  then have "q - q / 2 ^ 53 \<le> rnd q" by linarith
  also have "\<dots> \<le> d" using assms(5) by (simp add: d_def q_def)
  finally have qd: "q * (1 - 1 / 2 ^ 53) \<le> d" by (simp add: algebra_simps)
  have t0: "0 < t" using a d0 by (simp add: t_def)
  have td: "t * d = of_nat a" using d0 by (simp add: t_def)
  have "t * (q * (1 - 1 / 2 ^ 53)) \<le> t * d"
    using qd t0 by (intro mult_left_mono) simp_all
  then have "(t * (1 - 1 / 2 ^ 53)) * q \<le> of_nat b * q"
    using td qb by (simp add: algebra_simps)
  then have tb: "t * (1 - 1 / 2 ^ 53) \<le> of_nat b"
    using q0 by (simp only: mult_le_cancel_right_pos)
  have "\<bar>rnd t - t\<bar> \<le> t / 2 ^ 53"
    using rounded_props(5) [OF height_range [OF assms(1) dr(1,2)]] by (simp add: t_def)
  then have "rnd t - t \<le> t / 2 ^ 53" by (rule abs_le_D1)
  then have "rnd t \<le> t + t / 2 ^ 53" by linarith
  then show ?thesis using tb t0 b by (simp add: t_def [symmetric] d_def [symmetric])
qed

lemma wide_aspect:
  assumes "pixelSize b" and "pixelSize c" and "pixelSize e"
  shows "\<bar>rnd (of_nat b * rnd (of_nat c / of_nat e)) / of_nat b - of_nat c / of_nat e\<bar>
           \<le> of_nat c / of_nat e / 2 ^ 51"
proof -
  define r :: rat where "r = of_nat c / of_nat e"
  define d where "d = rnd r"
  define w where "w = rnd (of_nat b * d)"
  define v where "v = w / of_nat b"
  note b = pixel_rat [OF assms(1)]
  note dr = ratio_rounded [OF assms(2,3), folded r_def, folded d_def]
  have d0: "0 < d" using dr(1) pow2_pos [of "- 32"] by linarith
  have we: "\<bar>w - of_nat b * d\<bar> \<le> of_nat b * d / 2 ^ 53"
    unfolding w_def by (rule rounded_props(5) [OF width_range [OF assms(1) dr(1,2)]])
  have b0: "0 < (of_nat b :: rat)" using b by simp
  have up: "w \<le> (d + d / 2 ^ 53) * of_nat b"
    using abs_le_D1 [OF we] by (simp add: algebra_simps)
  have lo: "(d - d / 2 ^ 53) * of_nat b \<le> w"
    using abs_le_D2 [OF we] by (simp add: algebra_simps)
  have v1: "v \<le> d + d / 2 ^ 53"
    unfolding v_def using up b0 by (simp only: pos_divide_le_eq)
  have v2: "d - d / 2 ^ 53 \<le> v"
    unfolding v_def using lo b0 by (simp only: pos_le_divide_eq)
  have d1: "d \<le> r + r / 2 ^ 53" using abs_le_D1 [OF dr(3)] by linarith
  have d2: "r - r / 2 ^ 53 \<le> d" using abs_le_D2 [OF dr(3)] by linarith
  have r0: "0 < r" using d1 d0 by simp
  have u1: "v - r \<le> r / 2 ^ 51"
    using v1 d1 r0 by (simp; linarith)
  have u2: "- (v - r) \<le> r / 2 ^ 51"
    using v2 d2 r0 by (simp; linarith)
  have "\<bar>v - r\<bar> \<le> r / 2 ^ 51"
    using u1 u2 by (rule abs_leI)
  then show ?thesis by (simp add: v_def w_def d_def r_def)
qed

lemma tall_aspect:
  assumes "pixelSize a" and "pixelSize c" and "pixelSize e"
  shows "\<bar>of_nat a / rnd (of_nat a / rnd (of_nat c / of_nat e)) - of_nat c / of_nat e\<bar>
           \<le> of_nat c / of_nat e / 2 ^ 51"
proof -
  define r :: rat where "r = of_nat c / of_nat e"
  define d where "d = rnd r"
  define t :: rat where "t = of_nat a / d"
  define h where "h = rnd t"
  define v :: rat where "v = of_nat a / h"
  note a = pixel_rat [OF assms(1)]
  note dr = ratio_rounded [OF assms(2,3), folded r_def, folded d_def]
  have d0: "0 < d" using dr(1) pow2_pos [of "- 32"] by linarith
  note hp = rounded_props [OF height_range [OF assms(1) dr(1,2)], folded t_def, folded h_def]
  have h0: "0 < h" using hp(3) pow2_pos [of "- 32"] by linarith
  have td: "d * t = of_nat a" using d0 by (simp add: t_def)
  have h1: "h \<le> t + t / 2 ^ 53" using abs_le_D1 [OF hp(5)] by linarith
  have h2: "t - t / 2 ^ 53 \<le> h" using abs_le_D2 [OF hp(5)] by linarith
  have "d * h \<le> d * (t + t / 2 ^ 53)" using h1 d0 by (intro mult_left_mono) simp_all
  then have L2: "d * h \<le> of_nat a + of_nat a / 2 ^ 53"
    using td by (simp add: algebra_simps)
  have "d * (t - t / 2 ^ 53) \<le> d * h" using h2 d0 by (intro mult_left_mono) simp_all
  then have L1: "of_nat a - of_nat a / 2 ^ 53 \<le> d * h"
    using td by (simp add: algebra_simps)
  have vh: "v * h = of_nat a" using h0 by (simp add: v_def)
  have "(v - v / 2 ^ 53) * h \<le> d * h"
    using L1 vh by (simp add: algebra_simps)
  then have v1: "v - v / 2 ^ 53 \<le> d"
    using h0 by (simp only: mult_le_cancel_right_pos)
  have "d * h \<le> (v + v / 2 ^ 53) * h"
    using L2 vh by (simp add: algebra_simps)
  then have v2: "d \<le> v + v / 2 ^ 53"
    using h0 by (simp only: mult_le_cancel_right_pos)
  have d1: "d \<le> r + r / 2 ^ 53" using abs_le_D1 [OF dr(3)] by linarith
  have d2: "r - r / 2 ^ 53 \<le> d" using abs_le_D2 [OF dr(3)] by linarith
  have r0: "0 < r" using d1 d0 by simp
  have u1: "v - r \<le> r / 2 ^ 51"
    using v1 d1 r0 by (simp; linarith)
  have u2: "- (v - r) \<le> r / 2 ^ 51"
    using v2 d2 r0 by (simp; linarith)
  have "\<bar>v - r\<bar> \<le> r / 2 ^ 51"
    using u1 u2 by (rule abs_leI)
  then show ?thesis by (simp add: v_def h_def t_def d_def r_def)
qed

lemma cover_cases:
  assumes "pixelSize a" and "pixelSize b" and "pixelSize c" and "pixelSize e"
    and "cr = coverFit (ofNat a) (ofNat b) (ofNat c) (ofNat e)"
  shows "(\<exists>w p. jsgt (jsdiv (ofNat a) (ofNat b)) (jsdiv (ofNat c) (ofNat e))
            \<and> cr = \<lparr>sx = Fin p, sy = Fin 0, sw = Fin w, sh = ofNat b\<rparr>
            \<and> w = rnd (of_nat b * rnd (of_nat c / of_nat e))
            \<and> jsmul (ofNat b) (jsdiv (ofNat c) (ofNat e)) = Fin w
            \<and> jsdiv (jssub (ofNat a) (Fin w)) (Fin 2) = Fin p
            \<and> 0 < w \<and> 0 \<le> p \<and> p + w \<le> of_nat a)
       \<or> (\<exists>h p. \<not> jsgt (jsdiv (ofNat a) (ofNat b)) (jsdiv (ofNat c) (ofNat e))
            \<and> cr = \<lparr>sx = Fin 0, sy = Fin p, sw = ofNat a, sh = Fin h\<rparr>
            \<and> h = rnd (of_nat a / rnd (of_nat c / of_nat e))
            \<and> jsdiv (ofNat a) (jsdiv (ofNat c) (ofNat e)) = Fin h
            \<and> Math_max (Fin 0) (jsdiv (jssub (ofNat b) (Fin h)) (Fin 2)) = Fin p
            \<and> 0 < h \<and> 0 \<le> p \<and> (h \<le> of_nat b \<longrightarrow> p + h \<le> of_nat b)
            \<and> (of_nat b < h \<longrightarrow> p = 0) \<and> h \<le> of_nat b * (1 + 1 / 2 ^ 51))"
proof -
  define d where "d = rnd (of_nat c / of_nat e)"
  note dr = ratio_rounded [OF assms(3,4), folded d_def]
  note sh = cover_shape [OF assms(1-4), folded d_def]
  note cf = coverFit_pixels [OF assms(1-4), folded d_def]
  show ?thesis
  proof (cases "d < rnd (of_nat a / of_nat b)")
    case True
    define w where "w = rnd (of_nat b * d)"
    note wp = rounded_props [OF width_range [OF assms(2) dr(1,2)], folded w_def]
    from wp(2) obtain m :: int where m: "w = of_int m * pow2 (- 84)" ..
    have w0: "0 < w" using wp(3) pow2_pos [of "- 32"] by linarith
    have wa: "w \<le> of_nat a"
      using wide_fits [OF assms(1-4)] True by (simp add: w_def d_def)
    from centre_offset [OF assms(1) m w0 wp(4)] wa
    obtain p where p: "Math_max (Fin 0) (jsdiv (jssub (ofNat a) (Fin w)) (Fin 2)) = Fin p"
      "0 \<le> p" "p + w \<le> of_nat a" "jsdiv (jssub (ofNat a) (Fin w)) (Fin 2) = Fin p"
      by auto
    have "cr = \<lparr>sx = Fin p, sy = Fin 0, sw = Fin w, sh = ofNat b\<rparr>"
      using True p(1) by (simp add: assms(5) cf w_def [symmetric])
    then show ?thesis
      using True p w0 sh(3,4) by (auto simp add: w_def d_def)
  next
    case False
    define h where "h = rnd (of_nat a / d)"
    note hp = rounded_props [OF height_range [OF assms(1) dr(1,2)], folded h_def]
    from hp(2) obtain m :: int where m: "h = of_int m * pow2 (- 84)" ..
    have h0: "0 < h" using hp(3) pow2_pos [of "- 32"] by linarith
    have hb: "h \<le> of_nat b * (1 + 1 / 2 ^ 51)"
      using tall_bound [OF assms(1-4)] False by (simp add: h_def d_def)
    from centre_offset [OF assms(2) m h0 hp(4)]
    obtain p where p: "Math_max (Fin 0) (jsdiv (jssub (ofNat b) (Fin h)) (Fin 2)) = Fin p"
      "0 \<le> p" "h \<le> of_nat b \<longrightarrow> p + h \<le> of_nat b" "of_nat b < h \<longrightarrow> p = 0"
      by auto
    have "cr = \<lparr>sx = Fin 0, sy = Fin p, sw = ofNat a, sh = Fin h\<rparr>"
      using False p(1) by (simp add: assms(5) cf h_def [symmetric])
    then show ?thesis
      using False p h0 hb sh(3,5) by (auto simp add: h_def d_def)
  qed
qed

lemma equal_height:
  assumes "pixelSize a" and "pixelSize b" and "pixelSize c" and "pixelSize e"
    and "a * e = c * b"
  shows "rnd (of_nat a / of_nat b) = rnd (of_nat c / of_nat e)"
    and "\<bar>rnd (of_nat a / rnd (of_nat c / of_nat e)) - of_nat b\<bar> \<le> of_nat b / 2 ^ 51"
proof -
  define q :: rat where "q = of_nat a / of_nat b"
  define d where "d = rnd q"
  define t :: rat where "t = of_nat a / d"
  define h where "h = rnd t"
  note a = pixel_rat [OF assms(1)] and b = pixel_rat [OF assms(2)]
    and e = pixel_rat [OF assms(4)]
  have "(of_nat a :: rat) * of_nat e = of_nat c * of_nat b"
    using assms(5) by (metis of_nat_mult)
  then have qr: "of_nat c / of_nat e = q"
    using b e by (simp add: q_def frac_eq_eq)
  then show "rnd (of_nat a / of_nat b) = rnd (of_nat c / of_nat e)"
    by (simp add: q_def)
  note dq = ratio_rounded [OF assms(1,2), folded q_def, folded d_def]
  have d0: "0 < d" using dq(1) pow2_pos [of "- 32"] by linarith
  have q0: "0 < q" using a b by (simp add: q_def)
  have qb: "q * of_nat b = of_nat a" using b by (simp add: q_def)
  note hp = rounded_props [OF height_range [OF assms(1) dq(1,2)], folded t_def, folded h_def]
  have t0: "0 < t" using a d0 by (simp add: t_def)
  have td: "t * d = of_nat a" using d0 by (simp add: t_def)
  have d1: "d \<le> q + q / 2 ^ 53" using abs_le_D1 [OF dq(3)] by linarith
  have d2: "q - q / 2 ^ 53 \<le> d" using abs_le_D2 [OF dq(3)] by linarith
  have "t * d \<le> t * (q + q / 2 ^ 53)" using d1 t0 by (intro mult_left_mono) simp_all
  then have "of_nat b * q \<le> (t + t / 2 ^ 53) * q"
    using td qb by (simp add: algebra_simps)
  then have t1: "of_nat b \<le> t + t / 2 ^ 53"
    using q0 by (simp only: mult_le_cancel_right_pos)
  have "t * (q - q / 2 ^ 53) \<le> t * d" using d2 t0 by (intro mult_left_mono) simp_all
  then have "(t - t / 2 ^ 53) * q \<le> of_nat b * q"
    using td qb by (simp add: algebra_simps)
  then have t2: "t - t / 2 ^ 53 \<le> of_nat b"
    using q0 by (simp only: mult_le_cancel_right_pos)
  have h1: "h \<le> t + t / 2 ^ 53" using abs_le_D1 [OF hp(5)] by linarith
  have h2: "t - t / 2 ^ 53 \<le> h" using abs_le_D2 [OF hp(5)] by linarith
  have b0: "0 < (of_nat b :: rat)" using b by simp
  have u1: "h - of_nat b \<le> of_nat b / 2 ^ 51"
    using h1 t2 b0 t0 by (simp; linarith)
  have u2: "- (h - of_nat b) \<le> of_nat b / 2 ^ 51"
    using h2 t1 b0 t0 by (simp; linarith)
  have "\<bar>h - of_nat b\<bar> \<le> of_nat b / 2 ^ 51"
    using u1 u2 by (rule abs_leI)
  then show "\<bar>rnd (of_nat a / rnd (of_nat c / of_nat e)) - of_nat b\<bar> \<le> of_nat b / 2 ^ 51"
    by (simp add: h_def t_def d_def qr)
qed


lemmas js_ops = coverFit_def jsdiv_def jsmul_def jssub_def jsgt_def Math_max_def ofNat_def

lemma coverFit_220_200_110_100:
  "coverFit (ofNat 220) (ofNat 200) (ofNat 110) (ofNat 100) =
     \<lparr>sx = Fin 0, sy = Fin (1 / 70368744177664), sw = Fin 220,
      sh = Fin (7036874417766399 / 35184372088832)\<rparr>"
  by (simp add: js_ops num_eval)

lemma coverFit_460_200_230_100:
  "coverFit (ofNat 460) (ofNat 200) (ofNat 230) (ofNat 100) =
     \<lparr>sx = Fin 0, sy = Fin 0, sw = Fin 460,
      sh = Fin (7036874417766401 / 35184372088832)\<rparr>"
  by (simp add: js_ops num_eval)

lemma half_overshoot_460_200:
  "jsdiv (jssub (ofNat 200) (Fin (7036874417766401 / 35184372088832))) (Fin 2)
     = Fin (- (1 / 70368744177664))"
  by (simp add: js_ops num_eval)

lemma rnd_1: "rnd 1 = 1"
  using rnd_of_int [of 1] by simp


text \<open>
  C2. For pixel sizes, all four components of the crop rectangle are finite Numbers,
  the offsets are not negative, \<open>sx + sw\<close> does not exceed the source width, and
  \<open>sy + sh\<close> does not exceed the source height by more than the relative rounding
  tolerance \<open>2 ^ - 51\<close>. (The sums are exact sums of the Number values.)
\<close>

theorem crop_within_source:
  assumes "pixelSize srcW" and "pixelSize srcH" and "pixelSize targetW" and "pixelSize targetH"
    and "c = coverFit (ofNat srcW) (ofNat srcH) (ofNat targetW) (ofNat targetH)"
  shows "isFin (sx c) \<and> isFin (sy c) \<and> isFin (sw c) \<and> isFin (sh c)
       \<and> 0 \<le> valOf (sx c) \<and> 0 \<le> valOf (sy c)
       \<and> valOf (sx c) + valOf (sw c) \<le> of_nat srcW
       \<and> valOf (sy c) + valOf (sh c) \<le> of_nat srcH * (1 + 1 / 2 ^ 51)"
proof -
  have b0: "(0::rat) \<le> of_nat srcH" by simp
  from cover_cases [OF assms] show ?thesis
  proof (elim disjE exE conjE)
    fix w p
    assume "c = \<lparr>sx = Fin p, sy = Fin 0, sw = Fin w, sh = ofNat srcH\<rparr>"
      and "0 < w" and "0 \<le> p" and "p + w \<le> of_nat srcW"
    then show ?thesis by (simp add: isFin_def ofNat_def algebra_simps)
  next
    fix h p
    assume c: "c = \<lparr>sx = Fin 0, sy = Fin p, sw = ofNat srcW, sh = Fin h\<rparr>"
      and p: "0 \<le> p" "h \<le> of_nat srcH \<longrightarrow> p + h \<le> of_nat srcH" "of_nat srcH < h \<longrightarrow> p = 0"
      and h: "h \<le> of_nat srcH * (1 + 1 / 2 ^ 51)"
    have "p + h \<le> of_nat srcH * (1 + 1 / 2 ^ 51)"
    proof (cases "h \<le> of_nat srcH")
      case True
      with p(2) have "p + h \<le> of_nat srcH" by simp
      also have "\<dots> \<le> of_nat srcH * (1 + 1 / 2 ^ 51)"
        using b0 by (simp add: algebra_simps)
      finally show ?thesis .
    next
      case False
      with p(3) have "p = 0" by simp
      with h show ?thesis by simp
    qed
    then show ?thesis using c p(1) by (simp add: isFin_def ofNat_def)
  qed
qed

theorem crop_within_source_witness:
  "pixelSize 460 \<and> pixelSize 200 \<and> pixelSize 230 \<and> pixelSize 100
   \<and> valOf (sx (coverFit (ofNat 460) (ofNat 200) (ofNat 230) (ofNat 100)))
       + valOf (sw (coverFit (ofNat 460) (ofNat 200) (ofNat 230) (ofNat 100))) \<le> 460
   \<and> valOf (sy (coverFit (ofNat 460) (ofNat 200) (ofNat 230) (ofNat 100)))
       + valOf (sh (coverFit (ofNat 460) (ofNat 200) (ofNat 230) (ofNat 100)))
       \<le> 200 * (1 + 1 / 2 ^ 51)
   \<and> 200 < valOf (sy (coverFit (ofNat 460) (ofNat 200) (ofNat 230) (ofNat 100)))
       + valOf (sh (coverFit (ofNat 460) (ofNat 200) (ofNat 230) (ofNat 100)))"
  using crop_within_source
    [of 460 200 230 100 "coverFit (ofNat 460) (ofNat 200) (ofNat 230) (ofNat 100)"]
  by (simp add: pixelSize_def coverFit_460_200_230_100)


text \<open>
  C1, as stated, fails in binary64 arithmetic. For a 460 by 200 source and a 230 by
  100 target the else branch is taken and the crop height is \<open>200 + 2 ^ - 45\<close>: the
  ratio \<open>sw / sh\<close> is not 230/100, the crop is higher than the source, and \<open>sy\<close> is
  the clamped 0 while \<open>(srcH - sh) / 2\<close> is \<open>- 2 ^ - 46\<close>.
\<close>

theorem crop_not_exact:
  "\<not> jsgt (jsdiv (ofNat 460) (ofNat 200)) (jsdiv (ofNat 230) (ofNat 100))
   \<and> valOf (sw (coverFit (ofNat 460) (ofNat 200) (ofNat 230) (ofNat 100)))
       / valOf (sh (coverFit (ofNat 460) (ofNat 200) (ofNat 230) (ofNat 100))) \<noteq> 230 / 100
   \<and> of_nat 200 < valOf (sh (coverFit (ofNat 460) (ofNat 200) (ofNat 230) (ofNat 100)))
   \<and> sy (coverFit (ofNat 460) (ofNat 200) (ofNat 230) (ofNat 100)) = Fin 0
   \<and> jsdiv (jssub (ofNat 200) (sh (coverFit (ofNat 460) (ofNat 200) (ofNat 230) (ofNat 100))))
         (Fin 2)
       = Fin (- (1 / 2 ^ 46))"
proof -
  have g: "\<not> jsgt (jsdiv (ofNat 460) (ofNat 200)) (jsdiv (ofNat 230) (ofNat 100))"
    by (simp add: jsdiv_def jsgt_def ofNat_def num_eval)
  show ?thesis
    unfolding coverFit_460_200_230_100 cropRect.simps half_overshoot_460_200
    using g by simp
qed


text \<open>
  C1, amended. For pixel sizes, with every operation the rounded one of the code:
  when \<open>srcW / srcH > targetW / targetH\<close> the crop has \<open>sh = srcH\<close>, \<open>sy = 0\<close>,
  \<open>sw = srcH * (targetW / targetH)\<close> and \<open>sx = (srcW - sw) / 2\<close>; otherwise it has
  \<open>sw = srcW\<close>, \<open>sx = 0\<close>, \<open>sh = srcW / (targetW / targetH)\<close> and
  \<open>sy = max(0, (srcH - sh) / 2)\<close>. The ratio \<open>sw / sh\<close> equals \<open>targetW / targetH\<close>
  within the relative tolerance \<open>2 ^ - 51\<close>, and no rectangle of the crop's own ratio
  that fits in the source is wider or higher than the crop.
\<close>

theorem crop_formulas:
  assumes "pixelSize srcW" and "pixelSize srcH" and "pixelSize targetW" and "pixelSize targetH"
    and "c = coverFit (ofNat srcW) (ofNat srcH) (ofNat targetW) (ofNat targetH)"
  shows "(jsgt (jsdiv (ofNat srcW) (ofNat srcH)) (jsdiv (ofNat targetW) (ofNat targetH)) \<longrightarrow>
            sh c = ofNat srcH \<and> sy c = Fin 0
            \<and> sw c = jsmul (ofNat srcH) (jsdiv (ofNat targetW) (ofNat targetH))
            \<and> sx c = jsdiv (jssub (ofNat srcW) (sw c)) (Fin 2))
       \<and> (\<not> jsgt (jsdiv (ofNat srcW) (ofNat srcH)) (jsdiv (ofNat targetW) (ofNat targetH)) \<longrightarrow>
            sw c = ofNat srcW \<and> sx c = Fin 0
            \<and> sh c = jsdiv (ofNat srcW) (jsdiv (ofNat targetW) (ofNat targetH))
            \<and> sy c = Math_max (Fin 0) (jsdiv (jssub (ofNat srcH) (sh c)) (Fin 2)))
       \<and> isFin (sw c) \<and> isFin (sh c) \<and> 0 < valOf (sw c) \<and> 0 < valOf (sh c)
       \<and> \<bar>valOf (sw c) / valOf (sh c) - of_nat targetW / of_nat targetH\<bar>
            \<le> of_nat targetW / of_nat targetH / 2 ^ 51
       \<and> (\<forall>w' h'. 0 < h' \<and> w' \<le> of_nat srcW \<and> h' \<le> of_nat srcH
              \<and> w' / h' = valOf (sw c) / valOf (sh c) \<longrightarrow>
            w' \<le> valOf (sw c) \<and> h' \<le> valOf (sh c))"
proof -
  note a = pixel_rat [OF assms(1)] and b = pixel_rat [OF assms(2)]
  from cover_cases [OF assms] show ?thesis
  proof (elim disjE exE conjE)
    fix w p
    assume g: "jsgt (jsdiv (ofNat srcW) (ofNat srcH)) (jsdiv (ofNat targetW) (ofNat targetH))"
      and c: "c = \<lparr>sx = Fin p, sy = Fin 0, sw = Fin w, sh = ofNat srcH\<rparr>"
      and w: "w = rnd (of_nat srcH * rnd (of_nat targetW / of_nat targetH))"
      and m: "jsmul (ofNat srcH) (jsdiv (ofNat targetW) (ofNat targetH)) = Fin w"
      and d: "jsdiv (jssub (ofNat srcW) (Fin w)) (Fin 2) = Fin p"
      and w0: "0 < w"
    have asp: "\<bar>w / of_nat srcH - of_nat targetW / of_nat targetH\<bar>
            \<le> of_nat targetW / of_nat targetH / 2 ^ 51"
      unfolding w by (rule wide_aspect [OF assms(2,3,4)])
    have big: "\<And>w' h'. 0 < h' \<Longrightarrow> h' \<le> of_nat srcH \<Longrightarrow> w' / h' = w / of_nat srcH
        \<Longrightarrow> w' \<le> w"
    proof -
      fix w' h' :: rat
      assume h': "0 < h'" "h' \<le> of_nat srcH" and r: "w' / h' = w / of_nat srcH"
      from r h'(1) have "w' = w / of_nat srcH * h'" by (simp add: field_simps)
      also have "\<dots> \<le> w / of_nat srcH * of_nat srcH"
        using h'(2) w0 b by (intro mult_left_mono) simp_all
      also have "\<dots> = w" using b by simp
      finally show "w' \<le> w" .
    qed
    show ?thesis
      using g c m d w0 b asp big by (auto simp add: isFin_def ofNat_def)
  next
    fix h p
    assume g: "\<not> jsgt (jsdiv (ofNat srcW) (ofNat srcH)) (jsdiv (ofNat targetW) (ofNat targetH))"
      and c: "c = \<lparr>sx = Fin 0, sy = Fin p, sw = ofNat srcW, sh = Fin h\<rparr>"
      and h: "h = rnd (of_nat srcW / rnd (of_nat targetW / of_nat targetH))"
      and m: "jsdiv (ofNat srcW) (jsdiv (ofNat targetW) (ofNat targetH)) = Fin h"
      and d: "Math_max (Fin 0) (jsdiv (jssub (ofNat srcH) (Fin h)) (Fin 2)) = Fin p"
      and h0: "0 < h"
    have asp: "\<bar>of_nat srcW / h - of_nat targetW / of_nat targetH\<bar>
            \<le> of_nat targetW / of_nat targetH / 2 ^ 51"
      unfolding h by (rule tall_aspect [OF assms(1,3,4)])
    have big: "\<And>w' h'. 0 < h' \<Longrightarrow> w' \<le> of_nat srcW \<Longrightarrow> w' / h' = of_nat srcW / h
        \<Longrightarrow> h' \<le> h"
    proof -
      fix w' h' :: rat
      assume h': "0 < h'" "w' \<le> of_nat srcW" and r: "w' / h' = of_nat srcW / h"
      from r h'(1) h0 have "w' * h = of_nat srcW * h'" by (simp add: field_simps)
      then have "of_nat srcW * h' \<le> of_nat srcW * h"
        using h'(2) h0 by (metis mult_right_mono less_imp_le)
      then show "h' \<le> h" using a by simp
    qed
    show ?thesis
      using g c m d h0 a asp big by (auto simp add: isFin_def ofNat_def)
  qed
qed

theorem crop_formulas_witness:
  "pixelSize 220 \<and> pixelSize 200 \<and> pixelSize 110 \<and> pixelSize 100
   \<and> \<not> jsgt (jsdiv (ofNat 220) (ofNat 200)) (jsdiv (ofNat 110) (ofNat 100))
   \<and> sh (coverFit (ofNat 220) (ofNat 200) (ofNat 110) (ofNat 100))
       = jsdiv (ofNat 220) (jsdiv (ofNat 110) (ofNat 100))
   \<and> \<bar>valOf (sw (coverFit (ofNat 220) (ofNat 200) (ofNat 110) (ofNat 100)))
        / valOf (sh (coverFit (ofNat 220) (ofNat 200) (ofNat 110) (ofNat 100)))
        - of_nat 110 / of_nat 100\<bar>
       \<le> of_nat 110 / of_nat 100 / 2 ^ 51"
proof -
  have p: "pixelSize 220" "pixelSize 200" "pixelSize 110" "pixelSize 100"
    by (simp_all add: pixelSize_def)
  have g: "\<not> jsgt (jsdiv (ofNat 220) (ofNat 200)) (jsdiv (ofNat 110) (ofNat 100))"
    by (simp add: jsdiv_def jsgt_def ofNat_def)
  from crop_formulas [OF p refl] g p show ?thesis by blast
qed


text \<open>
  C3, as stated, fails in binary64 arithmetic. A 220 by 200 source has the ratio of a
  110 by 100 target, but the crop height is \<open>200 - 2 ^ - 45\<close> and \<open>sy\<close> is
  \<open>2 ^ - 46\<close>: the crop is not the full source.
\<close>

theorem equal_aspect_not_full:
  "(220::nat) * 100 = 110 * 200
   \<and> sy (coverFit (ofNat 220) (ofNat 200) (ofNat 110) (ofNat 100)) = Fin (1 / 2 ^ 46)
   \<and> sh (coverFit (ofNat 220) (ofNat 200) (ofNat 110) (ofNat 100))
       = Fin (7036874417766399 / 35184372088832)
   \<and> coverFit (ofNat 220) (ofNat 200) (ofNat 110) (ofNat 100)
       \<noteq> \<lparr>sx = Fin 0, sy = Fin 0, sw = ofNat 220, sh = ofNat 200\<rparr>"
  unfolding coverFit_220_200_110_100 by (simp add: ofNat_def)


text \<open>
  C3, amended. For pixel sizes with \<open>srcW / srcH = targetW / targetH\<close> the else branch
  is taken, \<open>sx = 0\<close> and \<open>sw = srcW\<close>; \<open>sh\<close> is \<open>srcH\<close> and \<open>sy\<close> is 0 within the
  tolerance \<open>srcH * 2 ^ - 51\<close>, and exactly so (the crop is the full source) whenever
  \<open>targetW / targetH\<close> is itself a binary64 value.
\<close>

theorem equal_aspect_crop:
  assumes "pixelSize srcW" and "pixelSize srcH" and "pixelSize targetW" and "pixelSize targetH"
    and "srcW * targetH = targetW * srcH"
    and "c = coverFit (ofNat srcW) (ofNat srcH) (ofNat targetW) (ofNat targetH)"
  shows "\<not> jsgt (jsdiv (ofNat srcW) (ofNat srcH)) (jsdiv (ofNat targetW) (ofNat targetH))
       \<and> sx c = Fin 0 \<and> sw c = ofNat srcW \<and> isFin (sy c) \<and> isFin (sh c)
       \<and> \<bar>valOf (sh c) - of_nat srcH\<bar> \<le> of_nat srcH / 2 ^ 51
       \<and> 0 \<le> valOf (sy c) \<and> valOf (sy c) \<le> of_nat srcH / 2 ^ 51
       \<and> (rnd (of_nat targetW / of_nat targetH) = of_nat targetW / of_nat targetH \<longrightarrow>
            c = \<lparr>sx = Fin 0, sy = Fin 0, sw = ofNat srcW, sh = ofNat srcH\<rparr>)"
proof -
  note b = pixel_rat [OF assms(2)] and e = pixel_rat [OF assms(4)]
  note eq = equal_height [OF assms(1-5)]
  note sh = cover_shape [OF assms(1-4)]
  have ng: "\<not> jsgt (jsdiv (ofNat srcW) (ofNat srcH)) (jsdiv (ofNat targetW) (ofNat targetH))"
    by (simp add: sh(3) eq(1))
  from cover_cases [OF assms(1-4,6)] ng
  obtain h p where c: "c = \<lparr>sx = Fin 0, sy = Fin p, sw = ofNat srcW, sh = Fin h\<rparr>"
    and h: "h = rnd (of_nat srcW / rnd (of_nat targetW / of_nat targetH))"
    and p: "0 \<le> p" "h \<le> of_nat srcH \<longrightarrow> p + h \<le> of_nat srcH" "of_nat srcH < h \<longrightarrow> p = 0"
    by auto
  have hb: "\<bar>h - of_nat srcH\<bar> \<le> of_nat srcH / 2 ^ 51"
    unfolding h by (rule eq(2))
  have pb: "p \<le> of_nat srcH / 2 ^ 51"
  proof (cases "h \<le> of_nat srcH")
    case True
    with p(2) have "p \<le> of_nat srcH - h" by simp
    also have "\<dots> \<le> of_nat srcH / 2 ^ 51" using abs_le_D2 [OF hb] by simp
    finally show ?thesis .
  next
    case False
    with p(3) have "p = 0" by simp
    then show ?thesis by simp
  qed
  have ex: "rnd (of_nat targetW / of_nat targetH) = of_nat targetW / of_nat targetH \<Longrightarrow>
      c = \<lparr>sx = Fin 0, sy = Fin 0, sw = ofNat srcW, sh = ofNat srcH\<rparr>"
  proof -
    assume r: "rnd (of_nat targetW / of_nat targetH) = of_nat targetW / of_nat targetH"
    have "(of_nat srcW :: rat) * of_nat targetH = of_nat targetW * of_nat srcH"
      using assms(5) by (metis of_nat_mult)
    then have "of_nat srcW / (of_nat targetW / of_nat targetH) = (of_nat srcH :: rat)"
      using e b assms(3) by (simp add: field_simps pixelSize_def)
    then have "h = rnd (of_int (int srcH))" by (simp add: h r)
    also have "\<dots> = of_int (int srcH)"
      using assms(2) by (intro rnd_of_int) (simp add: pixelSize_def)
    finally have hh: "h = of_nat srcH" by simp
    with p(1,2) have "p = 0" by simp
    with hh c show ?thesis by (simp add: ofNat_def)
  qed
  show ?thesis
    using ng c p(1) hb pb ex by (simp add: isFin_def)
qed

theorem equal_aspect_crop_witness:
  "pixelSize 1000 \<and> pixelSize 600 \<and> (1000::nat) * 600 = 600 * 1000
   \<and> coverFit (ofNat 1000) (ofNat 1000) (ofNat 600) (ofNat 600)
       = \<lparr>sx = Fin 0, sy = Fin 0, sw = ofNat 1000, sh = ofNat 1000\<rparr>"
  using equal_aspect_crop
    [of 1000 1000 600 600 "coverFit (ofNat 1000) (ofNat 1000) (ofNat 600) (ofNat 600)"]
  by (simp add: pixelSize_def rnd_1)

end
